theory Spec2Isabelle
  imports Main "HOL-Library.Word"
begin

unbundle bit_operations_syntax

section \<open>Reference data of the NullSrcSink block (examples/common.py)\<close>

text \<open>
  Python exceptions that the modelled functions can raise.  \<open>InvalidConfiguration\<close>
  is the error kind the specification names for a rejected constructor argument;
  the other constructors are the exceptions of the source: a list index out of
  range, a local variable read before assignment, and a failed \<^verbatim>\<open>assert\<close> that
  carries no message.
\<close>

datatype py_error =
    InvalidConfiguration
  | IndexError
  | UnboundLocalError
  | AssertionError

text \<open>
  \<^verbatim>\<open>class NullSrcSinkReferenceData\<close>: \<^verbatim>\<open>__init__\<close> stores
  \<^verbatim>\<open>self.mask = words_per_line - 1\<close> and nothing else.  \<^verbatim>\<open>words_per_line\<close>
  is a Python integer, hence \<open>int\<close>.
\<close>

record refdata =
  self_mask :: int

definition ref_init :: "int \<Rightarrow> py_error + refdata" where
  "ref_init words_per_line = Inr \<lparr>self_mask = words_per_line - 1\<rparr>"

text \<open>
  \<^verbatim>\<open>__iter__\<close> adds the iterator fields (\<^verbatim>\<open>self.x\<close> is written \<open>self_x\<close>).
  \<^verbatim>\<open>iteration\<close> and \<^verbatim>\<open>line\<close> are Python integers; \<^verbatim>\<open>hi\<close> and \<^verbatim>\<open>lo\<close> are
  created as \<^verbatim>\<open>np.uint32\<close>.  Both are masked after every update, so their values
  stay below \<open>2 ^ 32\<close> and the 32-bit word gives the value NumPy computes whether
  or not it promotes the sum to a wider type.
\<close>

record refiter = refdata +
  self_iteration :: int
  self_line :: int
  self_hi :: "32 word"
  self_lo :: "32 word"

definition ref_iter :: "refdata \<Rightarrow> refiter" where
  "ref_iter d = \<lparr>self_mask = self_mask d, self_iteration = 0, self_line = 0,
                 self_hi = 0x00000000, self_lo = 0x0000FFFF\<rparr>"

text \<open>The test \<^verbatim>\<open>(self.iteration & self.mask) == self.mask\<close> of \<^verbatim>\<open>__next__\<close>.\<close>

definition line_change :: "refiter \<Rightarrow> bool" where
  "line_change s \<longleftrightarrow> (self_iteration s AND self_mask s) = self_mask s"

text \<open>
  \<^verbatim>\<open>__next__\<close>: the returned word is computed before the counters move;
  \<^verbatim>\<open>iteration\<close> is incremented on every call.
\<close>

definition ref_next :: "refiter \<Rightarrow> 32 word \<times> refiter" where
  "ref_next s =
     (let retval = self_hi s OR self_lo s;
          s1 = (if line_change s
                then s\<lparr>self_line := self_line s + 1,
                       self_hi := (self_hi s + 0x00010000) AND 0xFFFF0000,
                       self_lo := (self_lo s - 0x00000001) AND 0x0000FFFF\<rparr>
                else s)
      in (retval, s1\<lparr>self_iteration := self_iteration s1 + 1\<rparr>))"

text \<open>The first \<open>n\<close> words of an iterator, and the iterator after \<open>n\<close> calls.\<close>

primrec ref_words :: "nat \<Rightarrow> refiter \<Rightarrow> 32 word list" where
  "ref_words 0 s = []"
| "ref_words (Suc n) s = fst (ref_next s) # ref_words n (snd (ref_next s))"

primrec ref_steps :: "nat \<Rightarrow> refiter \<Rightarrow> refiter" where
  "ref_steps 0 s = s"
| "ref_steps (Suc n) s = ref_steps n (snd (ref_next s))"

text \<open>A fresh generator: construct, then \<^verbatim>\<open>iter(...)\<close>.\<close>

definition fresh_ref :: "int \<Rightarrow> py_error + refiter" where
  "fresh_ref words_per_line =
     (case ref_init words_per_line of
        Inl e \<Rightarrow> Inl e
      | Inr d \<Rightarrow> Inr (ref_iter d))"

text \<open>
  The invariant of the counter pair: the low half of \<open>hi\<close> and the high half of
  \<open>lo\<close> are zero and the two 16-bit counts add up to \<open>0xFFFF\<close> modulo
  \<open>2 ^ 16\<close>.  \<open>self_checking\<close> is the same sum read off one emitted word.
\<close>

definition ref_inv :: "refiter \<Rightarrow> bool" where
  "ref_inv s \<longleftrightarrow>
     self_hi s AND 0x0000FFFF = 0
   \<and> self_lo s AND 0xFFFF0000 = 0
   \<and> (unat (drop_bit 16 (self_hi s)) + unat (self_lo s)) mod 2 ^ 16 = 0xFFFF"

definition self_checking :: "32 word \<Rightarrow> bool" where
  "self_checking w \<longleftrightarrow>
     (unat (drop_bit 16 w) + unat (w AND 0x0000FFFF)) mod 2 ^ 16 = 0xFFFF"

text \<open>
  \<open>counter_pair h s\<close>: \<open>hi\<close> holds the 16-bit count \<open>h\<close> in its upper half and
  \<open>lo\<close> holds \<open>0xFFFF - h\<close>.
\<close>

definition counter_pair :: "nat \<Rightarrow> refiter \<Rightarrow> bool" where
  "counter_pair h s \<longleftrightarrow>
     h < 65536 \<and> unat (self_hi s) = h * 65536 \<and> unat (self_lo s) = 65535 - h"

section \<open>Reference-mode verification (examples/aurora_loopback_nullsrcsink.py)\<close>

text \<open>
  The message of \<^verbatim>\<open>_verify_data\<close> is the f-string
  \<^verbatim>\<open>f"mismatch in line {null_ref.line:02d} expected: 0x{reference:08x}, received: 0x{dat:08x}"\<close>.
  \<open>fmt_02d\<close> is Python's \<^verbatim>\<open>:02d\<close> on an integer and \<open>fmt_08x\<close> its
  \<^verbatim>\<open>:08x\<close> on a value below \<open>2 ^ 32\<close> (always eight digits).
\<close>

definition digit_char :: "nat \<Rightarrow> char" where
  "digit_char n = ''0123456789abcdef'' ! n"

fun dec_digits :: "nat \<Rightarrow> string" where
  "dec_digits n =
     (if n < 10 then [digit_char n]
      else dec_digits (n div 10) @ [digit_char (n mod 10)])"

declare dec_digits.simps [simp del]

definition fmt_02d :: "int \<Rightarrow> string" where
  "fmt_02d i =
     (if i < 0 then CHR ''-'' # dec_digits (nat (- i))
      else let d = dec_digits (nat i)
           in if length d < 2 then CHR ''0'' # d else d)"

definition fmt_08x :: "32 word \<Rightarrow> string" where
  "fmt_08x w =
     map (\<lambda>i. digit_char (unat (drop_bit (4 * i) w AND 0xF))) [7, 6, 5, 4, 3, 2, 1, 0]"

definition mismatch_message :: "int \<Rightarrow> 32 word \<Rightarrow> 32 word \<Rightarrow> string" where
  "mismatch_message ln reference dat =
     ''mismatch in line '' @ fmt_02d ln @ '' expected: 0x'' @ fmt_08x reference
       @ '', received: 0x'' @ fmt_08x dat"

text \<open>
  The loop \<^verbatim>\<open>for dat in rx_data\<close>: \<^verbatim>\<open>next(null_ref)\<close> is called first, so
  the \<^verbatim>\<open>null_ref.line\<close> read for the message is the counter after that call.
\<close>

fun verify_loop :: "refiter \<Rightarrow> 32 word list \<Rightarrow> bool \<times> string" where
  "verify_loop null_ref [] = (True, [])"
| "verify_loop null_ref (dat # rx_data) =
     (let (reference, null_ref') = ref_next null_ref
      in if dat \<noteq> reference
         then (False, mismatch_message (self_line null_ref') reference dat)
         else verify_loop null_ref' rx_data)"

definition verify_data :: "32 word list \<Rightarrow> py_error + bool \<times> string" where
  "verify_data rx_data =
     (case fresh_ref 2 of
        Inl e \<Rightarrow> Inl e
      | Inr null_ref \<Rightarrow> Inr (verify_loop null_ref rx_data))"

text \<open>
  The line a word belongs to, as the docstring of \<^verbatim>\<open>_verify_data\<close> tabulates it
  for two words per line: words \<open>[0]\<close> and \<open>[1]\<close> form line 0, words \<open>[2]\<close> and
  \<open>[3]\<close> line 1.
\<close>

definition line_of_word :: "nat \<Rightarrow> nat" where
  "line_of_word i = i div 2"

section \<open>Files and sample buffers\<close>

text \<open>
  A file opened in binary mode, seen at the granularity of samples (the
  \<^verbatim>\<open>dtype\<close> items of \<^verbatim>\<open>np.fromfile\<close>): its name, its samples and the read
  position.  \<^verbatim>\<open>np.fromfile(f, count=n, dtype=...)\<close> returns at most \<open>n\<close> samples
  from the position on, fewer at the end of the file, and advances the position
  by what it returned; \<^verbatim>\<open>f.seek(0)\<close> rewinds.  The counts are buffer sizes, hence
  \<open>nat\<close>.
\<close>

record 'a pyfile =
  file_name :: string
  content :: "'a list"
  pos :: nat

definition open_file :: "string \<Rightarrow> 'a list \<Rightarrow> 'a pyfile" where
  "open_file nm xs = \<lparr>file_name = nm, content = xs, pos = 0\<rparr>"

definition fromfile :: "'a pyfile \<Rightarrow> nat \<Rightarrow> 'a list \<times> 'a pyfile" where
  "fromfile f count =
     (let buffer = take count (drop (pos f) (content f))
      in (buffer, f\<lparr>pos := pos f + length buffer\<rparr>))"

definition seek0 :: "'a pyfile \<Rightarrow> 'a pyfile" where
  "seek0 f = f\<lparr>pos := 0\<rparr>"

text \<open>
  A two-dimensional NumPy array as the pumps use it: \<^verbatim>\<open>shape[0]\<close> is the number
  of rows (channels), \<^verbatim>\<open>shape[1]\<close> the number of columns (samples per channel).
  \<open>col_slice a i j\<close> is \<^verbatim>\<open>a[:, i:j]\<close> and \<open>assign_row_prefix a idx buffer\<close> is
  \<^verbatim>\<open>a[idx, :len(buffer)] = buffer\<close>.
\<close>

record 'a ndarray2 =
  shape1 :: nat
  rows :: "'a list list"

definition col_slice :: "'a ndarray2 \<Rightarrow> nat \<Rightarrow> nat \<Rightarrow> 'a ndarray2" where
  "col_slice a i j =
     \<lparr>shape1 = min j (shape1 a) - i,
      rows = map (\<lambda>row. take (j - i) (drop i row)) (rows a)\<rparr>"

definition assign_row_prefix :: "'a ndarray2 \<Rightarrow> nat \<Rightarrow> 'a list \<Rightarrow> 'a ndarray2" where
  "assign_row_prefix a idx buffer =
     a\<lparr>rows := (rows a)[idx := buffer @ drop (length buffer) (rows a ! idx)]\<rparr>"

section \<open>Mirror-mode verification (compare, examples/aurora_loopback_host.py)\<close>

text \<open>
  The three ways \<^verbatim>\<open>compare\<close> fails, with the values its messages carry:
  \<^item> \<open>EOF_reference name iteration processed\<close>: \<^verbatim>\<open>EOFError(f"Reference file {name}
    reached EOF early, iteration {iteration}, number of processed samples: {processed}")\<close>;
  \<^item> \<open>EOF_received name processed\<close>: \<^verbatim>\<open>EOFError(f"Received file {name} reached EOF
    early, number of processed samples {processed}")\<close>;
  \<^item> \<open>Array_mismatch processed reference received\<close>: the failed
    \<^verbatim>\<open>assert np.array_equal(reference, received)\<close> with its message
    \<^verbatim>\<open>f"array mismatch - number of processed samples: {processed}, reference data:
    {reference}, received data: {received}"\<close>.
  \<^verbatim>\<open>np.array_equal\<close> is false for arrays of different length, so it is list
  equality.  A run that leaves the loop returns \<^verbatim>\<open>None\<close>, here \<open>Inr ()\<close>.
\<close>

datatype 'a compare_failure =
    EOF_reference string int nat
  | EOF_received string nat
  | Array_mismatch nat "'a list" "'a list"

text \<open>
  The \<^verbatim>\<open>while processed_samples < num_samples_total\<close> loop of \<^verbatim>\<open>compare\<close>.  The
  local \<^verbatim>\<open>iteration\<close> is written \<open>iteration'\<close>.  Each round either rewinds
  (and \<open>iteration'\<close> grows towards \<open>num_iterations\<close>), fails, or adds a non-empty
  chunk to \<open>processed_samples\<close>: the loop terminates.
\<close>

function compare_loop ::
  "'a pyfile \<Rightarrow> 'a pyfile \<Rightarrow> nat \<Rightarrow> int \<Rightarrow> nat \<Rightarrow> nat \<Rightarrow> int \<Rightarrow> 'a compare_failure + unit"
where
  "compare_loop reference_file received_file num_samples_total num_iterations buffer_size
       processed_samples iteration' =
     (if processed_samples < num_samples_total then
        (let (reference, reference_file') = fromfile reference_file buffer_size
         in if length reference = 0 then
              (if iteration' < num_iterations
               then compare_loop (seek0 reference_file') received_file num_samples_total
                      num_iterations buffer_size processed_samples (iteration' + 1)
               else Inl (EOF_reference (file_name reference_file) iteration' processed_samples))
            else
              (let (received, received_file') = fromfile received_file buffer_size
               in if length received = 0 then
                    Inl (EOF_received (file_name received_file) processed_samples)
                  else if reference \<noteq> received then
                    Inl (Array_mismatch processed_samples reference received)
                  else compare_loop reference_file' received_file' num_samples_total
                         num_iterations buffer_size
                         (processed_samples + length reference) iteration'))
      else Inr ())"
  by pat_completeness auto
termination
  by (relation "measures [\<lambda>(rf, cf, tot, n, b, p, it). nat (n - it),
                          \<lambda>(rf, cf, tot, n, b, p, it). tot - p]")
     (auto simp: neq_Nil_conv)

declare compare_loop.simps [simp del]

definition compare ::
  "'a pyfile \<Rightarrow> 'a pyfile \<Rightarrow> nat \<Rightarrow> int \<Rightarrow> nat \<Rightarrow> 'a compare_failure + unit"
where
  "compare reference_file received_file num_samples_total num_iterations buffer_size =
     compare_loop reference_file received_file num_samples_total num_iterations buffer_size 0 0"

section \<open>Receive pump (rx_function, examples/aurora_loopback_host.py)\<close>

text \<open>
  \<^verbatim>\<open>uhd.types.RXMetadataErrorCode\<close> and the fields of \<^verbatim>\<open>RXMetadata\<close> that
  \<^verbatim>\<open>rx_function\<close> reads; \<open>error_name\<close> is the enum member's \<^verbatim>\<open>.name\<close>.
\<close>

datatype rx_error_code =
    rx_none | rx_timeout | rx_late | rx_broken_chain | rx_overflow
  | rx_alignment | rx_bad_packet

fun error_name :: "rx_error_code \<Rightarrow> string" where
  "error_name rx_none = ''none''"
| "error_name rx_timeout = ''timeout''"
| "error_name rx_late = ''late''"
| "error_name rx_broken_chain = ''broken_chain''"
| "error_name rx_overflow = ''overflow''"
| "error_name rx_alignment = ''alignment''"
| "error_name rx_bad_packet = ''bad_packet''"

record rx_metadata =
  error_code :: rx_error_code
  out_of_sequence :: bool
  strerror :: string

text \<open>
  The streamer is the external collaborator: a state machine of some type \<open>'st\<close>
  whose \<^verbatim>\<open>recv(rx_buffer, rx_md, timeout)\<close> fills the buffer and the metadata and
  returns the number of samples received.  The state of the pump holds the
  streamer, the buffer, what has been written to the sink files and what has been
  printed.
\<close>

type_synonym ('a, 'st) recv_fn =
  "'st \<Rightarrow> 'a ndarray2 \<Rightarrow> (nat \<times> 'a ndarray2 \<times> rx_metadata) \<times> 'st"

record ('a, 'st) rx_state =
  rx_streamer :: 'st
  rx_buffer :: "'a ndarray2"
  rx_files :: "'a list list"
  printed :: "string list"

text \<open>
  \<^verbatim>\<open>for idx in range(num_chans): rx_buffer[idx, :received].tofile(files[idx])\<close>,
  over the rows from \<open>idx\<close> on; a missing file raises \<open>IndexError\<close>.
\<close>

fun tofile_rows ::
  "nat \<Rightarrow> 'a list list \<Rightarrow> nat \<Rightarrow> 'a list list \<Rightarrow> py_error option \<times> 'a list list"
where
  "tofile_rows idx [] received files = (None, files)"
| "tofile_rows idx (row # rest) received files =
     (if idx < length files
      then tofile_rows (idx + 1) rest received (files[idx := files ! idx @ take received row])
      else (Some IndexError, files))"

text \<open>
  The \<^verbatim>\<open>while num_rx < num_samples\<close> loop.  Nothing bounds the number of
  \<^verbatim>\<open>recv\<close> calls that return no sample and no error, so the loop is a partial
  function: \<open>None\<close> is a run that never returns.  The three \<^verbatim>\<open>if\<close> statements
  follow each other as in the source: the test \<^verbatim>\<open>error_code != none\<close> comes after
  the overflow report and is not an \<^verbatim>\<open>elif\<close>.
\<close>

partial_function (option) rx_loop ::
  "('a, 'st) recv_fn \<Rightarrow> nat \<Rightarrow> ('a, 'st) rx_state \<Rightarrow> nat \<Rightarrow> bool
     \<Rightarrow> ((py_error + nat) \<times> ('a, 'st) rx_state) option"
where [code]:
  "rx_loop recv num_samples s num_rx reported_overflow =
     (if num_rx < num_samples then
        (case recv (rx_streamer s) (rx_buffer s) of ((received, buffer', rx_md), streamer') \<Rightarrow>
           (case tofile_rows 0 (rows buffer') received (rx_files s) of (err, files') \<Rightarrow>
              (let s1 = s\<lparr>rx_streamer := streamer', rx_buffer := buffer', rx_files := files'\<rparr>
               in case err of
                    Some e \<Rightarrow> Some (Inl e, s1)
                  | None \<Rightarrow>
                      if error_code rx_md = rx_timeout then
                        Some (Inr (num_rx + received),
                              s1\<lparr>printed := printed s1 @ [''RX timeout'']\<rparr>)
                      else
                        (let report = (error_code rx_md = rx_overflow \<and> \<not> reported_overflow);
                             s2 = (if report
                                   then s1\<lparr>printed := printed s1 @
                                          [''Got an '' @
                                           (if out_of_sequence rx_md then ''out-of-sequence''
                                            else error_name (error_code rx_md))
                                           @ '' indication.'']\<rparr>
                                   else s1)
                         in if error_code rx_md \<noteq> rx_none then
                              Some (Inr (num_rx + received),
                                    s2\<lparr>printed := printed s2 @
                                         [''Got an error indication: '' @ strerror rx_md]\<rparr>)
                            else rx_loop recv num_samples s2 (num_rx + received)
                                   (reported_overflow \<or> report)))))
      else Some (Inr num_rx, s))"

definition rx_function ::
  "('a, 'st) recv_fn \<Rightarrow> 'st \<Rightarrow> 'a ndarray2 \<Rightarrow> 'a list list \<Rightarrow> nat
     \<Rightarrow> ((py_error + nat) \<times> ('a, 'st) rx_state) option"
where
  "rx_function recv rx_streamer0 rx_buffer0 files num_samples =
     rx_loop recv num_samples
       \<lparr>rx_streamer = rx_streamer0, rx_buffer = rx_buffer0, rx_files = files, printed = []\<rparr>
       0 False"

text \<open>
  A simulated transport for one channel: every call delivers the four samples
  \<open>7, 7, 7, 7\<close>; the first call reports an overflow, all later calls report no
  error.  Its state counts the calls.
\<close>

definition overflow_once :: "(nat, nat) recv_fn" where
  "overflow_once calls buf =
     ((4, \<lparr>shape1 = 4, rows = [[7, 7, 7, 7]]\<rparr>,
       \<lparr>error_code = (if calls = 0 then rx_overflow else rx_none),
        out_of_sequence = False,
        strerror = (if calls = 0 then ''ERROR_CODE_OVERFLOW'' else ''ERROR_CODE_NONE'')\<rparr>),
      calls + 1)"

section \<open>Transmit pump (tx_function, examples/aurora_loopback_host.py)\<close>

text \<open>
  \<^verbatim>\<open>tx_streamer.send(tx_buffer[:, a:b], tx_md, timeout)\<close> returns the number of
  samples it took, a count per channel.  \<open>send_log\<close> records every call: the array
  passed and the count returned.
\<close>

type_synonym ('a, 'st) send_fn = "'st \<Rightarrow> 'a ndarray2 \<Rightarrow> nat \<times> 'st"

record ('a, 'st) tx_state =
  tx_streamer :: 'st
  tx_buffer :: "'a ndarray2"
  tx_files :: "'a pyfile list"
  send_log :: "('a ndarray2 \<times> nat) list"

text \<open>\<^verbatim>\<open>for idx in range(num_chans): files[idx].seek(0)\<close>, for \<open>k\<close> channels from \<open>idx\<close> on.\<close>

fun seek_chans :: "nat \<Rightarrow> nat \<Rightarrow> 'a pyfile list \<Rightarrow> py_error option \<times> 'a pyfile list" where
  "seek_chans idx 0 files = (None, files)"
| "seek_chans idx (Suc k) files =
     (if idx < length files
      then seek_chans (idx + 1) k (files[idx := seek0 (files ! idx)])
      else (Some IndexError, files))"

text \<open>
  The \<^verbatim>\<open>for idx in range(num_chans)\<close> loop that fills the buffer, for \<open>k\<close> channels
  from \<open>idx\<close> on.  \<^verbatim>\<open>buffer_len_current\<close> is unbound until channel 0 has been
  read, hence an option; the \<^verbatim>\<open>assert\<close> on the other channels raises
  \<open>AssertionError\<close> (the specification's \<open>ChannelLengthMismatch\<close>) after the file
  has been read and before the row is written.
\<close>

fun read_chans ::
  "nat \<Rightarrow> nat \<Rightarrow> ('a, 'st) tx_state \<Rightarrow> nat option
     \<Rightarrow> (py_error + nat option) \<times> ('a, 'st) tx_state"
where
  "read_chans idx 0 s buffer_len_current = (Inr buffer_len_current, s)"
| "read_chans idx (Suc k) s buffer_len_current =
     (if idx < length (tx_files s) then
        (case fromfile (tx_files s ! idx) (shape1 (tx_buffer s)) of (buffer, file') \<Rightarrow>
           (let s1 = s\<lparr>tx_files := (tx_files s)[idx := file']\<rparr>
            in if idx \<noteq> 0 \<and> buffer_len_current \<noteq> Some (length buffer)
               then (Inl AssertionError, s1)
               else read_chans (idx + 1) k
                      (s1\<lparr>tx_buffer := assign_row_prefix (tx_buffer s1) idx buffer\<rparr>)
                      (Some (length buffer))))
      else (Inl IndexError, s))"

text \<open>
  The inner \<^verbatim>\<open>while num_tx_current < buffer_len_current\<close> loop.  A streamer that
  keeps returning 0 keeps it running for ever, so it is a partial function.
  (\<^verbatim>\<open>num_tx_iteration\<close> is only ever written and is left out.)
\<close>

partial_function (option) send_loop ::
  "('a, 'st) send_fn \<Rightarrow> nat \<Rightarrow> ('a, 'st) tx_state \<Rightarrow> nat \<Rightarrow> nat
     \<Rightarrow> (('a, 'st) tx_state \<times> nat) option"
where [code]:
  "send_loop send buffer_len_current s num_tx_current num_tx =
     (if num_tx_current < buffer_len_current then
        (let tx_slice = col_slice (tx_buffer s) num_tx_current buffer_len_current
         in case send (tx_streamer s) tx_slice of (transmitted, streamer') \<Rightarrow>
              send_loop send buffer_len_current
                (s\<lparr>tx_streamer := streamer',
                   send_log := send_log s @ [(tx_slice, transmitted)]\<rparr>)
                (num_tx_current + transmitted) (num_tx + transmitted))
      else Some (s, num_tx))"

text \<open>
  The \<^verbatim>\<open>while True\<close> loop over the chunks of one iteration; it ends with
  \<^verbatim>\<open>break\<close> when channel 0 has nothing left.  With no channel at all
  \<^verbatim>\<open>buffer_len_current\<close> is read unbound.
\<close>

partial_function (option) chunk_loop ::
  "('a, 'st) send_fn \<Rightarrow> ('a, 'st) tx_state \<Rightarrow> nat
     \<Rightarrow> ((py_error + nat) \<times> ('a, 'st) tx_state) option"
where [code]:
  "chunk_loop send s num_tx =
     (case read_chans 0 (length (rows (tx_buffer s))) s None of
        (Inl e, s1) \<Rightarrow> Some (Inl e, s1)
      | (Inr None, s1) \<Rightarrow> Some (Inl UnboundLocalError, s1)
      | (Inr (Some buffer_len_current), s1) \<Rightarrow>
          if buffer_len_current = 0 then Some (Inr num_tx, s1)
          else (case send_loop send buffer_len_current s1 0 num_tx of
                  None \<Rightarrow> None
                | Some (s2, num_tx') \<Rightarrow> chunk_loop send s2 num_tx'))"

text \<open>The outer \<^verbatim>\<open>while iteration < iterations\<close> loop and the function itself.\<close>

partial_function (option) tx_loop ::
  "('a, 'st) send_fn \<Rightarrow> int \<Rightarrow> ('a, 'st) tx_state \<Rightarrow> nat \<Rightarrow> int
     \<Rightarrow> ((py_error + nat) \<times> ('a, 'st) tx_state) option"
where [code]:
  "tx_loop send iterations s num_tx iteration' =
     (if iteration' < iterations then
        (case seek_chans 0 (length (rows (tx_buffer s))) (tx_files s) of
           (Some e, files') \<Rightarrow> Some (Inl e, s\<lparr>tx_files := files'\<rparr>)
         | (None, files') \<Rightarrow>
             (case chunk_loop send (s\<lparr>tx_files := files'\<rparr>) num_tx of
                None \<Rightarrow> None
              | Some (Inl e, s1) \<Rightarrow> Some (Inl e, s1)
              | Some (Inr num_tx', s1) \<Rightarrow>
                  tx_loop send iterations s1 num_tx' (iteration' + 1)))
      else Some (Inr num_tx, s))"

definition tx_function ::
  "('a, 'st) send_fn \<Rightarrow> 'st \<Rightarrow> 'a ndarray2 \<Rightarrow> 'a pyfile list \<Rightarrow> int
     \<Rightarrow> ((py_error + nat) \<times> ('a, 'st) tx_state) option"
where
  "tx_function send tx_streamer0 tx_buffer0 files iterations =
     tx_loop send iterations
       \<lparr>tx_streamer = tx_streamer0, tx_buffer = tx_buffer0, tx_files = files, send_log = []\<rparr>
       0 0"

text \<open>
  What the statements about the pump speak of: the number of samples the next
  read of channel \<open>j\<close> yields; a streamer whose \<^verbatim>\<open>send\<close> never takes more samples
  than it is offered and, when it takes none (a timeout), lowers the bound
  \<open>stall\<close> on the calls that may still take none; channel files that all hold
  \<open>S\<close> samples, those below \<open>idx\<close> at position \<open>q\<close> and the others at position \<open>p\<close>.
\<close>

definition chunk_len :: "('a, 'st) tx_state \<Rightarrow> nat \<Rightarrow> nat" where
  "chunk_len s j = length (fst (fromfile (tx_files s ! j) (shape1 (tx_buffer s))))"

definition send_ok :: "('a, 'st) send_fn \<Rightarrow> ('st \<Rightarrow> nat) \<Rightarrow> bool" where
  "send_ok send stall \<longleftrightarrow>
     (\<forall>st a. 0 < shape1 a \<longrightarrow>
        fst (send st a) \<le> shape1 a
      \<and> (fst (send st a) = 0 \<longrightarrow> stall (snd (send st a)) < stall st))"

definition chans_at :: "('a, 'st) tx_state \<Rightarrow> nat \<Rightarrow> nat \<Rightarrow> nat \<Rightarrow> nat \<Rightarrow> bool" where
  "chans_at s S idx p q \<longleftrightarrow>
     length (rows (tx_buffer s)) \<le> length (tx_files s)
   \<and> (\<forall>j < length (rows (tx_buffer s)).
         length (content (tx_files s ! j)) = S
       \<and> pos (tx_files s ! j) = (if j < idx then q else p))"

text \<open>
  \<open>sent_data j log\<close>: the samples of channel \<open>j\<close> that the logged calls took, in
  order (of each array passed, the first \<open>transmitted\<close> samples of row \<open>j\<close>).
  \<open>rows_loaded s idx p c\<close>: the rows below \<open>idx\<close> of the buffer begin with the \<open>c\<close>
  samples that their files hold from position \<open>p\<close> on.
\<close>

definition sent_data :: "nat \<Rightarrow> ('a ndarray2 \<times> nat) list \<Rightarrow> 'a list" where
  "sent_data j log = concat (map (\<lambda>(a, transmitted). take transmitted (rows a ! j)) log)"

definition rows_loaded :: "('a, 'st) tx_state \<Rightarrow> nat \<Rightarrow> nat \<Rightarrow> nat \<Rightarrow> bool" where
  "rows_loaded s idx p c \<longleftrightarrow>
     (\<forall>j < idx. take c (rows (tx_buffer s) ! j)
                 = take (shape1 (tx_buffer s)) (drop p (content (tx_files s ! j))))"

text \<open>
  For the statements about channel sources of unequal length: \<open>read_size B f t\<close> is
  the number of samples that the read number \<open>t\<close> (counted from 0) of up to \<open>B\<close>
  samples yields from the file \<open>f\<close> read from its start; \<open>chans_from s m idx p q\<close>
  says that every channel file holds at least \<open>m\<close> samples, those below \<open>idx\<close> at
  position \<open>q\<close> and the others at position \<open>p\<close>.
\<close>

definition read_size :: "nat \<Rightarrow> 'a pyfile \<Rightarrow> nat \<Rightarrow> nat" where
  "read_size B f t = min B (length (content f) - t * B)"

definition chans_from :: "('a, 'st) tx_state \<Rightarrow> nat \<Rightarrow> nat \<Rightarrow> nat \<Rightarrow> nat \<Rightarrow> bool" where
  "chans_from s m idx p q \<longleftrightarrow>
     length (rows (tx_buffer s)) \<le> length (tx_files s)
   \<and> (\<forall>j < length (rows (tx_buffer s)).
         m \<le> length (content (tx_files s ! j))
       \<and> pos (tx_files s ! j) = (if j < idx then q else p))"

text \<open>
  A simulated streamer that counts the calls: it takes at most three samples on
  the even calls and nothing on the odd ones.
\<close>

definition send3 :: "(nat, nat) send_fn" where
  "send3 calls a = (if even calls then min 3 (shape1 a) else 0, calls + 1)"

section \<open>Properties of the reference generator\<close>

lemma fresh_ref_eq:
  "fresh_ref w = Inr \<lparr>self_mask = w - 1, self_iteration = 0, self_line = 0, self_hi = 0, self_lo = 0xFFFF\<rparr>"
  by (simp add: fresh_ref_def ref_init_def ref_iter_def)

text \<open>
  Claim C7.  With \<open>words_per_line = 2\<close> a freshly iterated generator starts in
  the state \<open>(iteration, line, hi, lo) = (0, 0, 0x00000000, 0x0000FFFF)\<close> and its
  first six words are \<open>0x0000FFFF, 0x0000FFFF, 0x0001FFFE, 0x0001FFFE, 0x0002FFFD,
  0x0002FFFD\<close>.
\<close>

theorem first_six_words:
  "map_sum id (\<lambda>g. (self_iteration g, self_line g, self_hi g, self_lo g)) (fresh_ref 2)
     = Inr (0, 0, 0x00000000, 0x0000FFFF)
   \<and> map_sum id (ref_words 6) (fresh_ref 2)
     = Inr [0x0000FFFF, 0x0000FFFF, 0x0001FFFE, 0x0001FFFE, 0x0002FFFD, 0x0002FFFD]"
  by code_simp

text \<open>
  Claim C2 as the specification states it requires \<open>ref_init 0\<close> to be the error
  \<open>InvalidConfiguration\<close>.  The constructor has no check: with zero it returns an
  object whose mask is \<open>-1\<close>.
\<close>

theorem ref_init_zero_succeeds:
  "ref_init 0 = Inr \<lparr>self_mask = - 1\<rparr> \<and> ref_init 0 \<noteq> Inl InvalidConfiguration"
  by (simp add: ref_init_def)

text \<open>
  Claim C2, amended.  Construction succeeds for every integer \<open>words_per_line\<close>,
  zero included, and stores \<open>words_per_line - 1\<close> as the mask; no
  \<open>InvalidConfiguration\<close> (nor any other error) is raised at construction time.
\<close>

theorem ref_init_total:
  "(\<exists>d. ref_init words_per_line = Inr d \<and> self_mask d = words_per_line - 1)
   \<and> (\<forall>e. ref_init words_per_line \<noteq> Inl e)"
  by (simp add: ref_init_def)

subsection \<open>Words as natural numbers\<close>

lemma low_mask16: "(0xFFFF :: 32 word) = mask 16"
  by (simp add: mask_eq_exp_minus_1)

lemma high_mask16: "(0xFFFF0000 :: 32 word) = NOT (mask 16)"
  by (simp add: mask_eq_exp_minus_1)

lemma unat_lt32: "unat (x :: 32 word) < 4294967296"
  using unsigned_less [of x, where ?'a = nat] by simp

lemma unat_and_low: "unat (x AND 0xFFFF :: 32 word) = unat x mod 65536"
  unfolding low_mask16
  by (simp add: take_bit_eq_mask [symmetric] unsigned_take_bit_eq take_bit_eq_mod unat_mod)

lemma unat_drop16: "unat (drop_bit 16 (x :: 32 word)) = unat x div 65536"
  by (simp add: unsigned_drop_bit_eq drop_bit_eq_div unat_div)

lemma unat_and_high: "unat (x AND 0xFFFF0000 :: 32 word) = unat x div 65536 * 65536"
proof -
  have "x AND NOT (mask 16) = push_bit 16 (drop_bit 16 x)"
    by (rule bit_eqI) (auto simp: bit_simps)
  then have "unat (x AND 0xFFFF0000) = unat (push_bit 16 (drop_bit 16 x))"
    unfolding high_mask16 by simp
  also have "\<dots> = (unat x div 65536 * 65536) mod 4294967296"
    by (simp only: unsigned_push_bit_eq)
       (simp add: unat_drop16 take_bit_eq_mod push_bit_eq_mult)
  finally have "unat (x AND 0xFFFF0000) = (unat x div 65536 * 65536) mod 4294967296" .
  moreover have "unat x div 65536 * 65536 \<le> unat x" by simp
  ultimately show ?thesis using unat_lt32 [of x] by simp
qed

subsection \<open>The counter pair\<close>

lemma hi_advance:
  assumes "h < 65536" "unat (x :: 32 word) = h * 65536"
  shows "unat ((x + 0x00010000) AND 0xFFFF0000) = ((h + 1) mod 65536) * 65536"
proof (cases "h = 65535")
  case True
  with assms have "unat x = unat (0xFFFF0000 :: 32 word)" by simp
  then have "x = 0xFFFF0000" by (simp only: word_unat_eq_iff)
  with True show ?thesis by simp
next
  case False
  with assms have h: "h < 65535" by simp
  then have "h * 65536 + 65536 < 4294967296" by simp
  then have "unat (x + 0x00010000) = (h + 1) * 65536"
    using assms by (simp add: unat_word_ariths)
  then show ?thesis using h by (simp add: unat_and_high)
qed

lemma lo_advance:
  assumes "h < 65536" "unat (y :: 32 word) = 65535 - h"
  shows "unat ((y - 0x00000001) AND 0x0000FFFF) = 65535 - (h + 1) mod 65536"
proof (cases "h = 65535")
  case True
  with assms have "unat y = unat (0 :: 32 word)" by simp
  then have "y = 0" by (simp only: word_unat_eq_iff)
  with True show ?thesis by simp
next
  case False
  with assms have h: "h < 65535" by simp
  with assms have "y \<noteq> 0" by (auto simp: unat_eq_0)
  then have "unat (y - 1) = unat y - 1" by (rule unat_minus_one)
  then show ?thesis using h assms by (simp add: unat_and_low)
qed

lemma counter_pair_next:
  assumes "counter_pair h s"
  shows "counter_pair (if line_change s then (h + 1) mod 65536 else h) (snd (ref_next s))"
  using assms hi_advance [of h "self_hi s"] lo_advance [of h "self_lo s"]
  by (simp add: counter_pair_def ref_next_def)

lemma counter_pair_fresh: "fresh_ref w = Inr g \<Longrightarrow> counter_pair 0 g"
  by (auto simp: fresh_ref_eq counter_pair_def)

lemma counter_pair_inv:
  assumes "counter_pair h s"
  shows "ref_inv s"
proof -
  from assms have h: "h < 65536" and uh: "unat (self_hi s) = h * 65536"
    and ul: "unat (self_lo s) = 65535 - h"
    by (simp_all add: counter_pair_def)
  have "unat (self_hi s AND 0xFFFF) = 0" by (simp add: unat_and_low uh)
  then have 1: "self_hi s AND 0xFFFF = 0" by (simp add: unat_eq_0)
  have "unat (self_lo s AND 0xFFFF0000) = 0" using h by (simp add: unat_and_high ul)
  then have 2: "self_lo s AND 0xFFFF0000 = 0" by (simp add: unat_eq_0)
  have 3: "(unat (drop_bit 16 (self_hi s)) + unat (self_lo s)) mod 2 ^ 16 = 0xFFFF"
    using h by (simp add: unat_drop16 uh ul)
  from 1 2 3 show ?thesis by (simp add: ref_inv_def)
qed

lemma counter_pair_word:
  assumes "counter_pair h s"
  shows "self_checking (fst (ref_next s))"
proof -
  from assms have h: "h < 65536" and uh: "unat (self_hi s) = h * 65536"
    and ul: "unat (self_lo s) = 65535 - h"
    by (simp_all add: counter_pair_def)
  have "unat (self_lo s AND 0xFFFF0000) = 0" using h by (simp add: unat_and_high ul)
  then have lo_high: "self_lo s AND 0xFFFF0000 = 0" by (simp add: unat_eq_0)
  have "unat (self_hi s AND 0xFFFF) = 0" by (simp add: unat_and_low uh)
  then have hi_low: "self_hi s AND 0xFFFF = 0" by (simp add: unat_eq_0)
  have "unat (self_lo s AND 0xFFFF) = unat (self_lo s)" using h by (simp add: unat_and_low ul)
  then have lo_low: "self_lo s AND 0xFFFF = self_lo s" by (simp only: word_unat_eq_iff)
  have "unat (drop_bit 16 (self_lo s)) = 0" using h by (simp add: unat_drop16 ul)
  then have lo_drop: "drop_bit 16 (self_lo s) = 0" by (simp add: unat_eq_0)
  have a: "(self_hi s OR self_lo s) AND 0xFFFF = self_lo s"
    by (simp add: bit.conj_disj_distrib2 hi_low lo_low)
  have b: "drop_bit 16 (self_hi s OR self_lo s) = drop_bit 16 (self_hi s)"
    by (simp add: drop_bit_or lo_drop)
  have w: "fst (ref_next s) = self_hi s OR self_lo s"
    by (simp add: ref_next_def Let_def)
  have "(unat (drop_bit 16 (self_hi s)) + unat (self_lo s)) mod 2 ^ 16 = 0xFFFF"
    using h by (simp add: unat_drop16 uh ul)
  then show ?thesis
    unfolding self_checking_def w by (simp only: a b)
qed

lemma counter_pair_steps:
  "counter_pair h s \<Longrightarrow> \<exists>h'. counter_pair h' (ref_steps n s)"
proof (induction n arbitrary: h s)
  case 0
  then show ?case by auto
next
  case (Suc n)
  from counter_pair_next [OF Suc.prems] Suc.IH show ?case by simp
qed

lemma counter_pair_words:
  "counter_pair h s \<Longrightarrow> list_all self_checking (ref_words n s)"
proof (induction n arbitrary: h s)
  case 0
  then show ?case by simp
next
  case (Suc n)
  from counter_pair_next [OF Suc.prems] Suc.IH
  have "list_all self_checking (ref_words n (snd (ref_next s)))" by blast
  with counter_pair_word [OF Suc.prems] show ?case by simp
qed

text \<open>
  Claim C10.  For every power-of-two \<open>words_per_line = 2 ^ k\<close> (so
  \<open>words_per_line \<ge> 1\<close>) and every number \<open>n\<close> of production steps from the
  initial state, the state satisfies the invariant: the low 16 bits of \<open>hi\<close> are
  zero, the high 16 bits of \<open>lo\<close> are zero and \<open>(hi >> 16) + lo\<close> is \<open>0xFFFF\<close>
  modulo \<open>2 ^ 16\<close>; and every word \<open>w\<close> emitted on the way satisfies
  \<open>(w >> 16) + (w & 0xFFFF) = 0xFFFF\<close> modulo \<open>2 ^ 16\<close>.
\<close>

theorem ref_invariant:
  "\<exists>g. fresh_ref (2 ^ k) = Inr g
      \<and> ref_inv (ref_steps n g)
      \<and> list_all self_checking (ref_words n g)"
proof -
  obtain g where g: "fresh_ref (2 ^ k) = Inr g" by (simp add: fresh_ref_eq)
  then have cp: "counter_pair 0 g" by (rule counter_pair_fresh)
  from counter_pair_steps [OF cp] obtain h' where "counter_pair h' (ref_steps n g)" by blast
  then have "ref_inv (ref_steps n g)" by (rule counter_pair_inv)
  with g counter_pair_words [OF cp] show ?thesis by blast
qed

text \<open>
  Claim C8.  The counters wrap and do not saturate: a line advance from a state
  with \<open>hi = 0xFFFF0000\<close> gives \<open>hi = 0x00000000\<close>, and a line advance from a
  state with \<open>lo = 0x00000000\<close> gives \<open>lo = 0x0000FFFF\<close>.
\<close>

theorem counters_wrap:
  "line_change s \<Longrightarrow>
     (self_hi s = 0xFFFF0000 \<longrightarrow> self_hi (snd (ref_next s)) = 0x00000000)
   \<and> (self_lo s = 0x00000000 \<longrightarrow> self_lo (snd (ref_next s)) = 0x0000FFFF)"
  by (simp add: ref_next_def)

theorem counters_wrap_witness:
  "line_change \<lparr>self_mask = 1, self_iteration = 131069, self_line = 65535, self_hi = 0xFFFF0000, self_lo = 0\<rparr>
   \<and> self_hi (snd (ref_next \<lparr>self_mask = 1, self_iteration = 131069, self_line = 65535, self_hi = 0xFFFF0000, self_lo = 0\<rparr>)) = 0x00000000
   \<and> self_lo (snd (ref_next \<lparr>self_mask = 1, self_iteration = 131069, self_line = 65535, self_hi = 0xFFFF0000, self_lo = 0\<rparr>)) = 0x0000FFFF"
proof -
  have lc: "line_change \<lparr>self_mask = 1, self_iteration = 131069, self_line = 65535, self_hi = 0xFFFF0000, self_lo = 0\<rparr>"
    by (simp add: line_change_def)
  from counters_wrap [OF lc] lc show ?thesis by simp
qed

subsection \<open>The counters in closed form\<close>

lemma line_change_pow2:
  assumes "self_mask s = 2 ^ k - 1" "self_iteration s = int i"
  shows "line_change s \<longleftrightarrow> i mod 2 ^ k = 2 ^ k - 1"
proof -
  have "int i AND (2 ^ k - 1) = int i mod 2 ^ k"
    by (simp flip: mask_eq_exp_minus_1 take_bit_eq_mask add: take_bit_eq_mod)
  also have "\<dots> = int (i mod 2 ^ k)" by (simp add: zmod_int)
  finally have a: "int i AND (2 ^ k - 1) = int (i mod 2 ^ k)" .
  have b: "(2 ^ k - 1 :: int) = int (2 ^ k - 1)" by (simp add: of_nat_diff)
  have "line_change s \<longleftrightarrow> int i AND (2 ^ k - 1) = 2 ^ k - 1"
    by (simp add: line_change_def assms)
  also have "\<dots> \<longleftrightarrow> int (i mod 2 ^ k) = int (2 ^ k - 1)"
    by (metis a b)
  also have "\<dots> \<longleftrightarrow> i mod 2 ^ k = 2 ^ k - 1"
    by (rule of_nat_eq_iff)
  finally show ?thesis .
qed

lemma div_pow2_Suc:
  "Suc i div 2 ^ k = i div 2 ^ k + (if i mod 2 ^ k = 2 ^ k - 1 then 1 else 0)"
proof -
  have "0 < (2 :: nat) ^ k" by simp
  then have "(Suc (i mod 2 ^ k) = 2 ^ k) = (i mod 2 ^ k = 2 ^ k - 1)"
    by arith
  then show ?thesis by (simp add: div_Suc mod_Suc)
qed

lemma ref_steps_closed_form:
  "self_mask s = 2 ^ k - 1 \<Longrightarrow> self_iteration s = int i \<Longrightarrow>
   self_line s = int (i div 2 ^ k) \<Longrightarrow> counter_pair ((i div 2 ^ k) mod 65536) s \<Longrightarrow>
   self_iteration (ref_steps n s) = int (i + n)
   \<and> self_line (ref_steps n s) = int ((i + n) div 2 ^ k)
   \<and> counter_pair (((i + n) div 2 ^ k) mod 65536) (ref_steps n s)"
proof (induction n arbitrary: s i)
  case 0
  then show ?case by simp
next
  case (Suc n)
  let ?s1 = "snd (ref_next s)"
  have lc: "line_change s \<longleftrightarrow> i mod 2 ^ k = 2 ^ k - 1"
    using Suc.prems(1,2) by (rule line_change_pow2)
  have m: "self_mask ?s1 = 2 ^ k - 1" using Suc.prems(1) by (simp add: ref_next_def)
  have it: "self_iteration ?s1 = int (Suc i)" using Suc.prems(2) by (simp add: ref_next_def)
  have ln: "self_line ?s1 = int (Suc i div 2 ^ k)"
    using Suc.prems(3) lc by (simp add: ref_next_def div_pow2_Suc)
  have "(if line_change s then ((i div 2 ^ k) mod 65536 + 1) mod 65536
         else (i div 2 ^ k) mod 65536) = (Suc i div 2 ^ k) mod 65536"
    using lc by (simp add: div_pow2_Suc mod_Suc_eq)
  with counter_pair_next [OF Suc.prems(4)]
  have cp: "counter_pair ((Suc i div 2 ^ k) mod 65536) ?s1" by simp
  from Suc.IH [OF m it ln cp] show ?case by simp
qed

lemma fresh_closed_form:
  assumes "fresh_ref (2 ^ k) = Inr g"
  shows "self_iteration (ref_steps n g) = int n
       \<and> self_line (ref_steps n g) = int (n div 2 ^ k)
       \<and> counter_pair ((n div 2 ^ k) mod 65536) (ref_steps n g)"
proof -
  from assms have g: "self_mask g = 2 ^ k - 1" "self_iteration g = int 0"
      "self_line g = int (0 div 2 ^ k)" "counter_pair ((0 div 2 ^ k) mod 65536) g"
    by (auto simp: fresh_ref_eq counter_pair_def)
  from ref_steps_closed_form [OF g, of n] show ?thesis by simp
qed

text \<open>
  The wrap is reached in a run: after \<open>65535\<close> lines the counters are
  \<open>0xFFFF0000\<close> and \<open>0\<close>, and after \<open>65536\<close> lines they are back at their initial
  values.
\<close>

lemma wrap_reached:
  assumes "fresh_ref (2 ^ k) = Inr g"
  shows "self_hi (ref_steps (65535 * 2 ^ k) g) = 0xFFFF0000"
    and "self_lo (ref_steps (65535 * 2 ^ k) g) = 0x00000000"
    and "self_hi (ref_steps (65536 * 2 ^ k) g) = 0x00000000"
    and "self_lo (ref_steps (65536 * 2 ^ k) g) = 0x0000FFFF"
proof -
  from fresh_closed_form [OF assms, of "65535 * 2 ^ k"]
  have "counter_pair 65535 (ref_steps (65535 * 2 ^ k) g)" by simp
  then have "unat (self_hi (ref_steps (65535 * 2 ^ k) g)) = unat (0xFFFF0000 :: 32 word)"
    and "unat (self_lo (ref_steps (65535 * 2 ^ k) g)) = unat (0 :: 32 word)"
    by (simp_all add: counter_pair_def)
  then show "self_hi (ref_steps (65535 * 2 ^ k) g) = 0xFFFF0000"
    and "self_lo (ref_steps (65535 * 2 ^ k) g) = 0x00000000"
    by (simp_all only: word_unat_eq_iff)
  from fresh_closed_form [OF assms, of "65536 * 2 ^ k"]
  have "counter_pair 0 (ref_steps (65536 * 2 ^ k) g)" by simp
  then have "unat (self_hi (ref_steps (65536 * 2 ^ k) g)) = unat (0 :: 32 word)"
    and "unat (self_lo (ref_steps (65536 * 2 ^ k) g)) = unat (0xFFFF :: 32 word)"
    by (simp_all add: counter_pair_def)
  then show "self_hi (ref_steps (65536 * 2 ^ k) g) = 0x00000000"
    and "self_lo (ref_steps (65536 * 2 ^ k) g) = 0x0000FFFF"
    by (simp_all only: word_unat_eq_iff)
qed

text \<open>
  With \<open>words_per_line = 0\<close> the mask is \<open>-1\<close>, which no iteration index equals:
  the line never changes.
\<close>

lemma zero_words_per_line_never_advances:
  assumes "self_mask s = - 1" "0 \<le> self_iteration s"
  shows "ref_words n s = replicate n (self_hi s OR self_lo s)"
  using assms
proof (induction n arbitrary: s)
  case 0
  then show ?case by simp
next
  case (Suc n)
  from Suc.prems have nlc: "\<not> line_change s" by (auto simp: line_change_def)
  then have s1: "self_mask (snd (ref_next s)) = - 1" "0 \<le> self_iteration (snd (ref_next s))"
    "self_hi (snd (ref_next s)) = self_hi s" "self_lo (snd (ref_next s)) = self_lo s"
    "fst (ref_next s) = self_hi s OR self_lo s"
    using Suc.prems by (simp_all add: ref_next_def Let_def)
  from Suc.IH [OF s1(1,2)] s1(3,4,5) show ?case by simp
qed

section \<open>Properties of the reference-mode verification\<close>

lemma ref_words_append:
  "ref_words (m + n) g = ref_words m g @ ref_words n (ref_steps m g)"
  by (induction m arbitrary: g) simp_all

lemma verify_loop_pass: "verify_loop g (ref_words n g) = (True, [])"
  by (induction n arbitrary: g) (simp_all add: case_prod_beta Let_def)

lemma verify_loop_first_mismatch:
  "dat \<noteq> fst (ref_next (ref_steps n g)) \<Longrightarrow>
   verify_loop g (ref_words n g @ dat # later) =
     (False, mismatch_message (self_line (ref_steps (Suc n) g))
               (fst (ref_next (ref_steps n g))) dat)"
proof (induction n arbitrary: g)
  case 0
  then show ?case by (simp add: case_prod_beta Let_def)
next
  case (Suc n)
  from Suc.IH [of "snd (ref_next g)"] Suc.prems
  show ?case by (simp add: case_prod_beta Let_def)
qed

lemma line_change_mask1:
  "self_mask s = 1 \<Longrightarrow> self_iteration s = int i \<Longrightarrow> line_change s \<longleftrightarrow> odd i"
  by (simp add: line_change_def and_one_eq mod_2_eq_odd)

lemma two_words_per_line_steps:
  "self_mask s = 1 \<Longrightarrow> self_iteration s = int i \<Longrightarrow> self_line s = int (i div 2) \<Longrightarrow>
   self_mask (ref_steps n s) = 1 \<and> self_iteration (ref_steps n s) = int (i + n)
   \<and> self_line (ref_steps n s) = int ((i + n) div 2)"
proof (induction n arbitrary: s i)
  case 0
  then show ?case by simp
next
  case (Suc n)
  let ?s1 = "snd (ref_next s)"
  have lc: "line_change s \<longleftrightarrow> odd i"
    using Suc.prems(1,2) by (rule line_change_mask1)
  have m: "self_mask ?s1 = 1" using Suc.prems(1) by (simp add: ref_next_def)
  have it: "self_iteration ?s1 = int (Suc i)" using Suc.prems(2) by (simp add: ref_next_def)
  have "self_line ?s1 = int (i div 2) + (if odd i then 1 else 0)"
    using Suc.prems(3) lc by (simp add: ref_next_def)
  also have "\<dots> = int (Suc i div 2)" by (cases "odd i") (auto elim: oddE)
  finally have ln: "self_line ?s1 = int (Suc i div 2)" .
  from Suc.IH [OF m it ln] show ?case by simp
qed

lemma verify_data_pass:
  "fresh_ref 2 = Inr g \<Longrightarrow> verify_data (ref_words n g) = Inr (True, [])"
  by (simp add: verify_data_def verify_loop_pass)

lemma verify_data_reported_line:
  assumes "fresh_ref 2 = Inr g" "dat \<noteq> fst (ref_next (ref_steps n g))"
  shows "verify_data (ref_words n g @ dat # later) =
           Inr (False, mismatch_message (int ((n + 1) div 2))
                         (fst (ref_next (ref_steps n g))) dat)"
proof -
  from assms(1) have g: "self_mask g = 1" "self_iteration g = int 0" "self_line g = int (0 div 2)"
    by (auto simp: fresh_ref_eq)
  from two_words_per_line_steps [OF g, of "Suc n"]
  have "self_line (ref_steps (Suc n) g) = int ((n + 1) div 2)" by simp
  with verify_loop_first_mismatch [OF assms(2), of later] assms(1)
  show ?thesis by (simp add: verify_data_def)
qed

text \<open>
  Claim C9 at the input \<open>[0x0000FFFF, 0xDEADBEEF]\<close>: the first word matches, the
  second does not.  The second word is word \<open>[1]\<close>, which belongs to line 0; the
  message names line 01, the counter after the call that produced the expected
  word.
\<close>

theorem verify_data_names_next_line:
  "verify_data [0x0000FFFF, 0xDEADBEEF]
     = Inr (False, ''mismatch in line 01 expected: 0x0000ffff, received: 0xdeadbeef'')
   \<and> line_of_word 1 = 0"
  by code_simp

section \<open>Properties of the mirror-mode verification\<close>

lemma fromfile_at:
  "fromfile \<lparr>file_name = nm, content = xs, pos = p\<rparr> B =
     (take B (drop p xs),
      \<lparr>file_name = nm, content = xs, pos = p + length (take B (drop p xs))\<rparr>)"
  by (simp add: fromfile_def Let_def)

lemma compare_loop_equal_chunk:
  assumes "q < tot" "0 < B" "p + B \<le> length xs" "p' + B \<le> length ys"
    and "take B (drop p xs) = take B (drop p' ys)"
  shows "compare_loop \<lparr>file_name = rn, content = xs, pos = p\<rparr>
           \<lparr>file_name = cn, content = ys, pos = p'\<rparr> tot n B q it
       = compare_loop \<lparr>file_name = rn, content = xs, pos = p + B\<rparr>
           \<lparr>file_name = cn, content = ys, pos = p' + B\<rparr> tot n B (q + B) it"
proof -
  from assms have l1: "length (take B (drop p xs)) = B" by simp
  from assms have l2: "length (take B (drop p' ys)) = B" by simp
  from l1 assms(2) have ne: "take B (drop p xs) \<noteq> []" by auto
  show ?thesis
    apply (subst compare_loop.simps)
    using assms(1,5) ne l1 l2
    apply (simp add: fromfile_at del: length_take)
    done
qed

lemma compare_loop_mismatch:
  assumes "q < tot" "take B (drop p xs) \<noteq> []" "take B (drop p' ys) \<noteq> []"
    and "take B (drop p xs) \<noteq> take B (drop p' ys)"
  shows "compare_loop \<lparr>file_name = rn, content = xs, pos = p\<rparr>
           \<lparr>file_name = cn, content = ys, pos = p'\<rparr> tot n B q it
       = Inl (Array_mismatch q (take B (drop p xs)) (take B (drop p' ys)))"
  apply (subst compare_loop.simps)
  using assms
  apply (simp add: fromfile_at del: length_take)
  done


lemma compare_loop_common_prefix:
  assumes "0 < B"
  shows "k * B < tot \<Longrightarrow> k * B \<le> length xs \<Longrightarrow> k * B \<le> length ys \<Longrightarrow>
         take (k * B) xs = take (k * B) ys \<Longrightarrow>
         compare_loop \<lparr>file_name = rn, content = xs, pos = 0\<rparr>
           \<lparr>file_name = cn, content = ys, pos = 0\<rparr> tot n B 0 it
       = compare_loop \<lparr>file_name = rn, content = xs, pos = k * B\<rparr>
           \<lparr>file_name = cn, content = ys, pos = k * B\<rparr> tot n B (k * B) it"
proof (induction k)
  case 0
  then show ?case by simp
next
  case (Suc k)
  from Suc.prems have lt: "k * B < tot" and lx: "k * B + B \<le> length xs"
    and ly: "k * B + B \<le> length ys" by (simp_all add: add.commute)
  from Suc.prems(4) have eq: "take (k * B + B) xs = take (k * B + B) ys"
    by (simp add: add.commute)
  then have "take (k * B) (take (k * B + B) xs) = take (k * B) (take (k * B + B) ys)"
    by simp
  then have pre: "take (k * B) xs = take (k * B) ys" by simp
  from eq have "drop (k * B) (take (k * B + B) xs) = drop (k * B) (take (k * B + B) ys)"
    by simp
  then have chunk: "take B (drop (k * B) xs) = take B (drop (k * B) ys)"
    by (simp add: drop_take)
  from lx ly have "k * B \<le> length xs" "k * B \<le> length ys" by simp_all
  with Suc.IH lt pre
  have "compare_loop \<lparr>file_name = rn, content = xs, pos = 0\<rparr>
           \<lparr>file_name = cn, content = ys, pos = 0\<rparr> tot n B 0 it
       = compare_loop \<lparr>file_name = rn, content = xs, pos = k * B\<rparr>
           \<lparr>file_name = cn, content = ys, pos = k * B\<rparr> tot n B (k * B) it"
    by simp
  also have "\<dots> = compare_loop \<lparr>file_name = rn, content = xs, pos = k * B + B\<rparr>
           \<lparr>file_name = cn, content = ys, pos = k * B + B\<rparr> tot n B (k * B + B) it"
    by (rule compare_loop_equal_chunk [OF lt assms lx ly chunk])
  finally show ?case by (simp add: add.commute)
qed


text \<open>
  Claim C4, amended.  Two sources that are equal except at one sample position
  \<open>i\<close>, with a chunk size \<open>B > 0\<close> and the chunk of \<open>i\<close> inside the compared range
  (\<open>(i div B) * B < totalSamples\<close>): the comparison fails with the mismatch
  report, which carries the number of samples processed before the chunk that
  holds the corrupted sample, \<open>(i div B) * B\<close>, and the contents of both chunks
  (not the offset \<open>i\<close> of the sample itself).
\<close>

theorem compare_flipped_sample:
  assumes "0 < B" "i < length xs" "v \<noteq> xs ! i" "(i div B) * B < tot"
  shows "compare (open_file rn xs) (open_file cn (xs[i := v])) tot n B
       = Inl (Array_mismatch ((i div B) * B)
                (take B (drop ((i div B) * B) xs))
                (take B (drop ((i div B) * B) (xs[i := v]))))"
proof -
  define m where "m = (i div B) * B"
  let ?ys = "xs[i := v]"
  have le: "m \<le> i" by (simp add: m_def)
  have lt: "i < m + B" unfolding m_def using assms(1)
    by (metis add.commute dividend_less_div_times mult.commute)
  have mt: "m < tot" using assms(4) by (simp add: m_def)
  have pre: "take m xs = take m ?ys" using le by simp
  have lx: "m \<le> length xs" using le assms(2) by linarith
  have ly: "m \<le> length ?ys" using lx by simp
  have start: "compare (open_file rn xs) (open_file cn ?ys) tot n B
       = compare_loop \<lparr>file_name = rn, content = xs, pos = m\<rparr>
           \<lparr>file_name = cn, content = ?ys, pos = m\<rparr> tot n B m 0"
    unfolding compare_def open_file_def m_def
    by (rule compare_loop_common_prefix [OF assms(1)])
       (use mt lx ly pre in \<open>simp_all add: m_def\<close>)
  have idx: "i - m < length (take B (drop m xs))"
    using le lt assms(2) by auto
  then have ne1: "take B (drop m xs) \<noteq> []" by auto
  have idx2: "i - m < length (take B (drop m ?ys))"
    using le lt assms(2) by auto
  then have ne2: "take B (drop m ?ys) \<noteq> []" by auto
  have a: "take B (drop m xs) ! (i - m) = xs ! i"
    using le lt assms(2) by auto
  have b: "take B (drop m ?ys) ! (i - m) = v"
    using le lt assms(2) by auto
  from a b assms(3) have neq: "take B (drop m xs) \<noteq> take B (drop m ?ys)"
    by metis
  show ?thesis
    unfolding start m_def [symmetric]
    by (rule compare_loop_mismatch [OF mt ne1 ne2 neq])
qed




theorem compare_flipped_sample_witness:
  "compare (open_file ''in'' [1, 2, 3, 4, 5, 6 :: nat])
           (open_file ''out'' ([1, 2, 3, 4, 5, 6][3 := 9])) 6 1 2
     = Inl (Array_mismatch 2 [3, 4] [3, 9])"
  using compare_flipped_sample [of 2 3 "[1, 2, 3, 4, 5, 6 :: nat]" 9 6 "''in''" "''out''" 1]
  by simp

text \<open>
  Claim C4 as the specification states it: the report names the offset of the
  corrupted sample.  With the sample at offset 2 flipped and one chunk of four
  samples, the report carries offset 0, the start of the chunk.
\<close>

theorem flipped_sample_offset_counterexample:
  "compare (open_file ''in'' [1, 2, 3, 4 :: nat]) (open_file ''out'' ([1, 2, 3, 4][2 := 9])) 4 1 4
     = Inl (Array_mismatch 0 [1, 2, 3, 4] [1, 2, 9, 4])
   \<and> compare (open_file ''in'' [1, 2, 3, 4 :: nat]) (open_file ''out'' ([1, 2, 3, 4][2 := 9])) 4 1 4
     \<noteq> Inl (Array_mismatch 2 [1, 2, 3, 4] [1, 2, 9, 4])"
  by code_simp





















text \<open>
  The loop counts rewinds, not passes: with \<open>num_iterations = 1\<close> a received file
  that holds the reference twice is accepted, the reference being read twice.
\<close>

lemma compare_one_iteration_two_passes:
  "compare (open_file ''in'' [1, 2, 3, 4 :: nat]) (open_file ''out'' [1, 2, 3, 4, 1, 2, 3, 4]) 8 1 2
     = Inr ()"
  by code_simp

section \<open>Properties of the receive pump\<close>

text \<open>
  Whatever the error code of a \<^verbatim>\<open>recv\<close> call, if it is not \<open>none\<close> the pump
  returns after that call with the count reached: the overflow is no exception.
\<close>

lemma rx_loop_error_returns:
  assumes "num_rx < num_samples"
    and "recv (rx_streamer s) (rx_buffer s) = ((received, buffer', rx_md), streamer')"
    and "tofile_rows 0 (rows buffer') received (rx_files s) = (None, files')"
    and "error_code rx_md \<noteq> rx_none"
  shows "\<exists>s'. rx_loop recv num_samples s num_rx reported_overflow
             = Some (Inr (num_rx + received), s')"
  by (subst rx_loop.simps) (simp add: assms Let_def)

text \<open>
  Claim C1 at the simulated transport \<open>overflow_once\<close>, target 12 samples: the
  first \<^verbatim>\<open>recv\<close> reports an overflow and the pump returns 4 after that one call
  (the streamer's call count is 1), having printed the overflow indication and
  then the generic error indication.
\<close>

theorem rx_overflow_ends_pump:
  "rx_function overflow_once 0 \<lparr>shape1 = 4, rows = [[0, 0, 0, 0]]\<rparr> [[]] 12
     = Some (Inr 4,
         \<lparr>rx_streamer = 1, rx_buffer = \<lparr>shape1 = 4, rows = [[7, 7, 7, 7]]\<rparr>,
          rx_files = [[7, 7, 7, 7]],
          printed = [''Got an overflow indication.'',
                     ''Got an error indication: ERROR_CODE_OVERFLOW'']\<rparr>)"
  unfolding rx_function_def
  by (subst rx_loop.simps) (simp add: overflow_once_def)

section \<open>Properties of the transmit pump\<close>

lemma read_chans_preserves:
  "read_chans idx k s blc = (r, s') \<Longrightarrow>
     send_log s' = send_log s \<and> tx_streamer s' = tx_streamer s
     \<and> shape1 (tx_buffer s') = shape1 (tx_buffer s)
     \<and> length (rows (tx_buffer s')) = length (rows (tx_buffer s))
     \<and> length (tx_files s') = length (tx_files s)
     \<and> map content (tx_files s') = map content (tx_files s)"
proof (induction idx k s blc arbitrary: r s' rule: read_chans.induct)
  case (1 idx s blc)
  then show ?case by simp
next
  case (2 idx k s blc)
  show ?case
  proof (cases "idx < length (tx_files s)")
    case False
    with "2.prems" show ?thesis by simp
  next
    case True
    obtain buffer file' where ff: "fromfile (tx_files s ! idx) (shape1 (tx_buffer s)) = (buffer, file')"
      by (cases "fromfile (tx_files s ! idx) (shape1 (tx_buffer s))")
    show ?thesis
    proof (cases "idx \<noteq> 0 \<and> blc \<noteq> Some (length buffer)")
      case True
      have "content file' = content (tx_files s ! idx)"
        using ff by (auto simp: fromfile_def Let_def)
      then have "map content ((tx_files s)[idx := file']) = map content (tx_files s)"
        by (simp add: map_update list_update_same_conv \<open>idx < length (tx_files s)\<close>)
      with True \<open>idx < length (tx_files s)\<close> ff "2.prems" show ?thesis by auto
    next
      case False
      let ?s1 = "s\<lparr>tx_files := (tx_files s)[idx := file']\<rparr>"
      let ?s2 = "?s1\<lparr>tx_buffer := assign_row_prefix (tx_buffer ?s1) idx buffer\<rparr>"
      from False \<open>idx < length (tx_files s)\<close> ff "2.prems"
      have rec: "read_chans (idx + 1) k ?s2 (Some (length buffer)) = (r, s')"
        by (auto simp: Let_def)
      have "content file' = content (tx_files s ! idx)"
        using ff by (auto simp: fromfile_def Let_def)
      then have "map content ((tx_files s)[idx := file']) = map content (tx_files s)"
        by (simp add: map_update list_update_same_conv \<open>idx < length (tx_files s)\<close>)
      with "2.IH" [OF \<open>idx < length (tx_files s)\<close> ff [symmetric] refl False rec]
      show ?thesis by (simp add: assign_row_prefix_def)
    qed
  qed
qed


lemma chunk_len_other:
  "j \<noteq> idx \<Longrightarrow>
   chunk_len (s\<lparr>tx_files := (tx_files s)[idx := f],
               tx_buffer := assign_row_prefix (tx_buffer s) idx b\<rparr>) j = chunk_len s j"
  by (simp add: chunk_len_def assign_row_prefix_def)

lemma read_chans_mismatch:
  "0 < idx \<Longrightarrow> idx + k \<le> length (tx_files s) \<Longrightarrow>
   \<exists>j. idx \<le> j \<and> j < idx + k \<and> chunk_len s j \<noteq> L \<Longrightarrow>
   fst (read_chans idx k s (Some L)) = Inl AssertionError"
proof (induction k arbitrary: idx s)
  case 0
  then show ?case by auto
next
  case (Suc k)
  from Suc.prems have lt: "idx < length (tx_files s)" by simp
  obtain buffer file' where ff:
    "fromfile (tx_files s ! idx) (shape1 (tx_buffer s)) = (buffer, file')"
    by (cases "fromfile (tx_files s ! idx) (shape1 (tx_buffer s))")
  then have cl: "chunk_len s idx = length buffer" by (simp add: chunk_len_def)
  show ?case
  proof (cases "length buffer = L")
    case False
    with lt ff Suc.prems(1) show ?thesis by simp
  next
    case True
    let ?s2 = "s\<lparr>tx_files := (tx_files s)[idx := file'],
                 tx_buffer := assign_row_prefix (tx_buffer s) idx buffer\<rparr>"
    from Suc.prems(3) obtain j where j: "idx \<le> j" "j < idx + Suc k" "chunk_len s j \<noteq> L"
      by blast
    with cl True have "j \<noteq> idx" by auto
    with j have j': "idx + 1 \<le> j" "j < (idx + 1) + k" by simp_all
    from \<open>j \<noteq> idx\<close> j(3) have "chunk_len ?s2 j \<noteq> L" by (simp add: chunk_len_other)
    with j' have ex: "\<exists>j. idx + 1 \<le> j \<and> j < (idx + 1) + k \<and> chunk_len ?s2 j \<noteq> L" by blast
    have len: "(idx + 1) + k \<le> length (tx_files ?s2)" using Suc.prems(2) by simp
    have "fst (read_chans (idx + 1) k ?s2 (Some L)) = Inl AssertionError"
      by (rule Suc.IH [OF _ len ex]) simp
    with lt ff True show ?thesis by (simp add: Let_def)
  qed
qed

text \<open>
  Unequal reads in one chunk: the chunk loop returns the error, and the log of
  calls and the streamer are as they were when the chunk began.
\<close>

lemma chunk_loop_mismatch:
  assumes "2 \<le> length (rows (tx_buffer s))"
    and "length (rows (tx_buffer s)) \<le> length (tx_files s)"
    and "\<exists>j < length (rows (tx_buffer s)). chunk_len s j \<noteq> chunk_len s 0"
  shows "\<exists>s1. chunk_loop send s num_tx = Some (Inl AssertionError, s1)
            \<and> send_log s1 = send_log s \<and> tx_streamer s1 = tx_streamer s"
proof -
  obtain k where k: "length (rows (tx_buffer s)) = Suc (Suc k)"
    using assms(1) by (metis Suc_le_D numeral_2_eq_2 Suc_le_mono)
  from assms(2) k have lt0: "0 < length (tx_files s)" by linarith
  obtain buffer file' where ff:
    "fromfile (tx_files s ! 0) (shape1 (tx_buffer s)) = (buffer, file')"
    by (cases "fromfile (tx_files s ! 0) (shape1 (tx_buffer s))")
  then have cl: "chunk_len s 0 = length buffer" by (simp add: chunk_len_def)
  let ?s2 = "s\<lparr>tx_files := (tx_files s)[0 := file'],
               tx_buffer := assign_row_prefix (tx_buffer s) 0 buffer\<rparr>"
  from assms(3) obtain j where j: "j < Suc (Suc k)" "chunk_len s j \<noteq> length buffer"
    using k cl by auto
  then have "j \<noteq> 0" using cl by (metis)
  with j have ex: "\<exists>j. 1 \<le> j \<and> j < 1 + Suc k \<and> chunk_len ?s2 j \<noteq> length buffer"
    by (intro exI [of _ j]) (simp add: chunk_len_other)
  have len: "1 + Suc k \<le> length (tx_files ?s2)" using assms(2) k by simp
  have err: "fst (read_chans 1 (Suc k) ?s2 (Some (length buffer))) = Inl AssertionError"
    by (rule read_chans_mismatch [OF _ len ex]) simp
  obtain r s1 where rc: "read_chans 0 (length (rows (tx_buffer s))) s None = (r, s1)"
    by (cases "read_chans 0 (length (rows (tx_buffer s))) s None")
  have "read_chans 0 (length (rows (tx_buffer s))) s None
      = read_chans 1 (Suc k) ?s2 (Some (length buffer))"
    using lt0 ff by (simp add: k Let_def)
  with err rc have r: "r = Inl AssertionError" by simp
  from read_chans_preserves [OF rc]
  have pres: "send_log s1 = send_log s" "tx_streamer s1 = tx_streamer s" by simp_all
  have "chunk_loop send s num_tx = Some (Inl AssertionError, s1)"
    by (subst chunk_loop.simps) (simp add: rc r)
  with pres show ?thesis by blast
qed

text \<open>An error of the chunk loop is the result of the pump.\<close>

lemma tx_loop_error:
  assumes "iteration' < iterations"
    and "seek_chans 0 (length (rows (tx_buffer s))) (tx_files s) = (None, files')"
    and "chunk_loop send (s\<lparr>tx_files := files'\<rparr>) num_tx = Some (Inl e, s1)"
  shows "tx_loop send iterations s num_tx iteration' = Some (Inl e, s1)"
  by (subst tx_loop.simps) (simp add: assms)

lemma send_loop_total:
  assumes ok: "send_ok send stall"
  shows "cur \<le> blc \<Longrightarrow> blc \<le> shape1 (tx_buffer s) \<Longrightarrow>
         \<exists>s'. send_loop send blc s cur num_tx = Some (s', num_tx + (blc - cur))
            \<and> tx_files s' = tx_files s \<and> tx_buffer s' = tx_buffer s
            \<and> length (send_log s) + (if cur < blc then 1 else 0) \<le> length (send_log s')"
proof (induction "(blc - cur, stall (tx_streamer s))" arbitrary: cur s num_tx
    rule: wf_induct_rule [OF wf_lex_prod [OF wf_less_than wf_less_than]])
  case 1
  show ?case
  proof (cases "cur < blc")
    case False
    with "1.prems" have "cur = blc" by simp
    then show ?thesis by (subst send_loop.simps) simp
  next
    case True
    let ?sl = "col_slice (tx_buffer s) cur blc"
    obtain t st' where sd: "send (tx_streamer s) ?sl = (t, st')"
      by (cases "send (tx_streamer s) ?sl")
    have sh: "shape1 ?sl = blc - cur" using "1.prems" by (simp add: col_slice_def)
    with True have "0 < shape1 ?sl" by simp
    with ok sd sh have t: "t \<le> blc - cur" "t = 0 \<longrightarrow> stall st' < stall (tx_streamer s)"
      unfolding send_ok_def by (metis fst_conv snd_conv)+
    let ?s1 = "s\<lparr>tx_streamer := st', send_log := send_log s @ [(?sl, t)]\<rparr>"
    have m: "((blc - (cur + t), stall (tx_streamer ?s1)), (blc - cur, stall (tx_streamer s)))
               \<in> less_than <*lex*> less_than"
      using t True by (cases "t = 0") auto
    have c: "cur + t \<le> blc" using t True by simp
    have b: "blc \<le> shape1 (tx_buffer ?s1)" using "1.prems" by simp
    from "1.hyps" [OF m c b, of "num_tx + t"]
    obtain s' where s': "send_loop send blc ?s1 (cur + t) (num_tx + t)
          = Some (s', num_tx + t + (blc - (cur + t)))"
        "tx_files s' = tx_files ?s1" "tx_buffer s' = tx_buffer ?s1"
        "length (send_log ?s1) + (if cur + t < blc then 1 else 0) \<le> length (send_log s')"
      by blast
    have "send_loop send blc s cur num_tx = send_loop send blc ?s1 (cur + t) (num_tx + t)"
      by (subst send_loop.simps) (simp add: True sd Let_def)
    with s' t c show ?thesis by (intro exI [of _ s']) auto
  qed
qed

lemma read_chans_aligned:
  "chans_at s S idx p (p + c) \<Longrightarrow> c = min (shape1 (tx_buffer s)) (S - p) \<Longrightarrow>
   idx + k = length (rows (tx_buffer s)) \<Longrightarrow> (0 < idx \<longrightarrow> blc = Some c) \<Longrightarrow>
   \<exists>s'. read_chans idx k s blc = (Inr (if k = 0 then blc else Some c), s')
      \<and> chans_at s' S (idx + k) p (p + c)"
proof (induction k arbitrary: idx s blc)
  case 0
  then show ?case by simp
next
  case (Suc k)
  let ?n = "length (rows (tx_buffer s))"
  from Suc.prems(3) have idxn: "idx < ?n" by simp
  with Suc.prems(1) have lt: "idx < length (tx_files s)"
    and len: "length (content (tx_files s ! idx)) = S"
    and ps: "pos (tx_files s ! idx) = p"
    by (auto simp: chans_at_def)
  let ?buffer = "take (shape1 (tx_buffer s)) (drop p (content (tx_files s ! idx)))"
  let ?file' = "(tx_files s ! idx)\<lparr>pos := p + c\<rparr>"
  have lb: "length ?buffer = c" using len Suc.prems(2) by simp
  have ff: "fromfile (tx_files s ! idx) (shape1 (tx_buffer s)) = (?buffer, ?file')"
    using lb ps by (simp add: fromfile_def Let_def)
  let ?s2 = "s\<lparr>tx_files := (tx_files s)[idx := ?file'],
               tx_buffer := assign_row_prefix (tx_buffer s) idx ?buffer\<rparr>"
  have ca: "chans_at ?s2 S (idx + 1) p (p + c)"
    using Suc.prems(1) lt
    by (auto simp: chans_at_def assign_row_prefix_def nth_list_update)
  have c2: "c = min (shape1 (tx_buffer ?s2)) (S - p)"
    using Suc.prems(2) by (simp add: assign_row_prefix_def)
  have n2: "(idx + 1) + k = length (rows (tx_buffer ?s2))"
    using Suc.prems(3) by (simp add: assign_row_prefix_def)
  from Suc.IH [OF ca c2 n2, of "Some c"]
  obtain s' where s': "read_chans (idx + 1) k ?s2 (Some c) = (Inr (Some c), s')"
      "chans_at s' S (idx + 1 + k) p (p + c)"
    by (auto split: if_splits)
  have noassert: "\<not> (idx \<noteq> 0 \<and> blc \<noteq> Some (length ?buffer))"
    using Suc.prems(4) lb by auto
  have "read_chans idx (Suc k) s blc = read_chans (idx + 1) k ?s2 (Some c)"
    using lt ff noassert lb by (auto simp add: Let_def simp del: length_take)
  with s' show ?case by (intro exI [of _ s']) simp
qed


lemma ceil_step:
  fixes B d :: nat
  assumes "0 < B" "0 < d"
  shows "(d + B - 1) div B \<le> 1 + (d - min B d + B - 1) div B"
proof (cases "B \<le> d")
  case True
  then have "d + B - 1 = (d - B + B - 1) + B" using assms by simp
  then have "(d + B - 1) div B = (d - B + B - 1) div B + 1"
    using assms(1) by (metis div_add_self2 less_numeral_extra(3))
  with True show ?thesis by (simp add: min_def)
next
  case False
  then have "d + B - 1 < 2 * B" by simp
  then have "(d + B - 1) div B < 2" using assms(1)
    by (simp add: less_mult_imp_div_less mult.commute)
  then show ?thesis by simp
qed

lemma chans_at_all:
  "chans_at s S (length (rows (tx_buffer s))) p q \<Longrightarrow> chans_at s S 0 q q"
  by (simp add: chans_at_def)

lemma chunk_loop_total:
  assumes ok: "send_ok send stall" and B: "0 < B"
  shows "chans_at s S 0 p p \<Longrightarrow> p \<le> S \<Longrightarrow> 0 < length (rows (tx_buffer s)) \<Longrightarrow>
         shape1 (tx_buffer s) = B \<Longrightarrow>
         \<exists>s'. chunk_loop send s num_tx = Some (Inr (num_tx + (S - p)), s')
            \<and> length (send_log s) + (S - p + B - 1) div B \<le> length (send_log s')"
proof (induction "S - p" arbitrary: s p num_tx rule: less_induct)
  case less
  let ?n = "length (rows (tx_buffer s))"
  define c where "c = min (shape1 (tx_buffer s)) (S - p)"
  from less.prems(1) have ca0: "chans_at s S 0 p (p + c)" by (simp add: chans_at_def)
  from read_chans_aligned [OF ca0 c_def, of ?n None] less.prems(3)
  obtain s1 where rc: "read_chans 0 ?n s None = (Inr (Some c), s1)"
    and ca1: "chans_at s1 S ?n p (p + c)"
    by auto
  from read_chans_preserves [OF rc]
  have pres: "send_log s1 = send_log s" "shape1 (tx_buffer s1) = shape1 (tx_buffer s)"
    "length (rows (tx_buffer s1)) = ?n" by simp_all
  from ca1 pres(3) have al1: "chans_at s1 S 0 (p + c) (p + c)"
    by (metis chans_at_all)
  show ?case
  proof (cases "c = 0")
    case True
    with c_def less.prems(4) B have "S - p = 0" by (simp add: min_def split: if_splits)
    moreover have "chunk_loop send s num_tx = Some (Inr num_tx, s1)"
      by (subst chunk_loop.simps) (simp add: rc True)
    moreover have "(B - 1) div B = 0" using B by simp
    ultimately show ?thesis using pres(1) by simp
  next
    case False
    then have cpos: "0 < c" by simp
    have cle: "c \<le> shape1 (tx_buffer s1)" by (simp add: pres(2) c_def)
    from send_loop_total [OF ok _ cle, of 0 num_tx] cpos
    obtain s2 where s2: "send_loop send c s1 0 num_tx = Some (s2, num_tx + c)"
      "tx_files s2 = tx_files s1" "tx_buffer s2 = tx_buffer s1"
      "length (send_log s1) + 1 \<le> length (send_log s2)"
      by auto
    from al1 s2(2,3) have al2: "chans_at s2 S 0 (p + c) (p + c)"
      by (simp add: chans_at_def)
    have cS: "c \<le> S - p" by (simp add: c_def)
    have dpos: "0 < S - p" using cpos cS by simp
    have m: "S - (p + c) < S - p" using cpos cS by simp
    have ple: "p + c \<le> S" using cS less.prems(2) by simp
    have n2: "0 < length (rows (tx_buffer s2))" using s2(3) pres(3) less.prems(3) by simp
    have sh2: "shape1 (tx_buffer s2) = B" using s2(3) pres(2) less.prems(4) by simp
    from less.hyps [OF m al2 ple n2 sh2, of "num_tx + c"]
    obtain s' where s': "chunk_loop send s2 (num_tx + c) = Some (Inr (num_tx + c + (S - (p + c))), s')"
      "length (send_log s2) + (S - (p + c) + B - 1) div B \<le> length (send_log s')"
      by blast
    have unf: "chunk_loop send s num_tx = chunk_loop send s2 (num_tx + c)"
      by (subst chunk_loop.simps) (simp add: rc False s2(1))
    have cmin: "c = min B (S - p)" using c_def less.prems(4) by simp
    have "(S - p + B - 1) div B \<le> 1 + (S - p - c + B - 1) div B"
      using ceil_step [OF B dpos] cmin by simp
    with s'(2) s2(4) pres(1)
    have lg: "length (send_log s) + (S - p + B - 1) div B \<le> length (send_log s')"
      by simp
    have "num_tx + c + (S - (p + c)) = num_tx + (S - p)" using cS by simp
    with unf s'(1) lg show ?thesis by (intro exI [of _ s']) simp
  qed
qed


lemma seek_chans_ok:
  "idx + k \<le> length files \<Longrightarrow>
   \<exists>files'. seek_chans idx k files = (None, files') \<and> length files' = length files
     \<and> (\<forall>j < length files. content (files' ! j) = content (files ! j)
           \<and> pos (files' ! j) = (if idx \<le> j \<and> j < idx + k then 0 else pos (files ! j)))"
proof (induction k arbitrary: idx files)
  case 0
  then show ?case by simp
next
  case (Suc k)
  then have lt: "idx < length files" by simp
  let ?f1 = "files[idx := seek0 (files ! idx)]"
  have "(idx + 1) + k \<le> length ?f1" using Suc.prems by simp
  from Suc.IH [OF this]
  obtain files' where f': "seek_chans (idx + 1) k ?f1 = (None, files')"
      "length files' = length ?f1"
      "\<forall>j < length ?f1. content (files' ! j) = content (?f1 ! j)
           \<and> pos (files' ! j) = (if idx + 1 \<le> j \<and> j < idx + 1 + k then 0 else pos (?f1 ! j))"
    by blast
  have "seek_chans idx (Suc k) files = (None, files')" using lt f'(1) by simp
  moreover have "length files' = length files" using f'(2) by simp
  moreover have "\<forall>j < length files. content (files' ! j) = content (files ! j)
           \<and> pos (files' ! j) = (if idx \<le> j \<and> j < idx + Suc k then 0 else pos (files ! j))"
  proof (intro allI impI)
    fix j assume j: "j < length files"
    with f'(3) have a: "content (files' ! j) = content (?f1 ! j)"
      and b: "pos (files' ! j) = (if idx + 1 \<le> j \<and> j < idx + 1 + k then 0 else pos (?f1 ! j))"
      by simp_all
    show "content (files' ! j) = content (files ! j)
           \<and> pos (files' ! j) = (if idx \<le> j \<and> j < idx + Suc k then 0 else pos (files ! j))"
      using a b j lt by (cases "j = idx") (auto simp: seek0_def)
  qed
  ultimately show ?case by blast
qed

lemma sent_data_append [simp]:
  "sent_data j (xs @ ys) = sent_data j xs @ sent_data j ys"
  by (simp add: sent_data_def)

lemma send_loop_data:
  assumes ok: "send_ok send stall"
  shows "cur \<le> blc \<Longrightarrow> blc \<le> shape1 (tx_buffer s) \<Longrightarrow>
         send_loop send blc s cur num_tx = Some (s', r) \<Longrightarrow>
         j < length (rows (tx_buffer s)) \<Longrightarrow>
         sent_data j (send_log s')
           = sent_data j (send_log s) @ take (blc - cur) (drop cur (rows (tx_buffer s) ! j))"
proof (induction "(blc - cur, stall (tx_streamer s))" arbitrary: cur s num_tx
    rule: wf_induct_rule [OF wf_lex_prod [OF wf_less_than wf_less_than]])
  case 1
  show ?case
  proof (cases "cur < blc")
    case False
    with "1.prems"(3) have "s' = s" by (subst (asm) send_loop.simps) simp
    with False show ?thesis by simp
  next
    case True
    let ?sl = "col_slice (tx_buffer s) cur blc"
    obtain t st' where sd: "send (tx_streamer s) ?sl = (t, st')"
      by (cases "send (tx_streamer s) ?sl")
    have sh: "shape1 ?sl = blc - cur" using "1.prems" by (simp add: col_slice_def)
    with True have "0 < shape1 ?sl" by simp
    with ok sd sh have t: "t \<le> blc - cur" "t = 0 \<longrightarrow> stall st' < stall (tx_streamer s)"
      unfolding send_ok_def by (metis fst_conv snd_conv)+
    let ?s1 = "s\<lparr>tx_streamer := st', send_log := send_log s @ [(?sl, t)]\<rparr>"
    have m: "((blc - (cur + t), stall (tx_streamer ?s1)), (blc - cur, stall (tx_streamer s)))
               \<in> less_than <*lex*> less_than"
      using t True by (cases "t = 0") auto
    have c: "cur + t \<le> blc" using t True by simp
    have b: "blc \<le> shape1 (tx_buffer ?s1)" using "1.prems" by simp
    have unf: "send_loop send blc s cur num_tx = send_loop send blc ?s1 (cur + t) (num_tx + t)"
      by (subst send_loop.simps) (simp add: True sd Let_def)
    with "1.prems"(3) have rec: "send_loop send blc ?s1 (cur + t) (num_tx + t) = Some (s', r)"
      by simp
    have j1: "j < length (rows (tx_buffer ?s1))" using "1.prems"(4) by simp
    let ?row = "rows (tx_buffer s) ! j"
    from "1.hyps" [OF m c b rec j1]
    have "sent_data j (send_log s')
        = sent_data j (send_log s) @ take t (rows ?sl ! j)
            @ take (blc - (cur + t)) (drop (cur + t) ?row)"
      by (simp add: sent_data_def)
    also have "rows ?sl ! j = take (blc - cur) (drop cur ?row)"
      using "1.prems"(4) by (simp add: col_slice_def)
    also have "take t (take (blc - cur) (drop cur ?row)) = take t (drop cur ?row)"
      using t by (simp add: min_def)
    also have "take t (drop cur ?row) @ take (blc - (cur + t)) (drop (cur + t) ?row)
        = take (blc - cur) (drop cur ?row)"
    proof -
      have "blc - cur = t + (blc - (cur + t))" using t by simp
      then have "take (blc - cur) (drop cur ?row)
          = take t (drop cur ?row) @ take (blc - (cur + t)) (drop t (drop cur ?row))"
        by (metis take_add)
      then show ?thesis by (simp add: add.commute)
    qed
    finally show ?thesis .
  qed
qed

lemma read_chans_loaded:
  "chans_at s S idx p (p + c) \<Longrightarrow> c = min (shape1 (tx_buffer s)) (S - p) \<Longrightarrow>
   idx + k = length (rows (tx_buffer s)) \<Longrightarrow> (0 < idx \<longrightarrow> blc = Some c) \<Longrightarrow>
   rows_loaded s idx p c \<Longrightarrow> read_chans idx k s blc = (r, s') \<Longrightarrow>
   rows_loaded s' (idx + k) p c"
proof (induction k arbitrary: idx s blc)
  case 0
  then show ?case by simp
next
  case (Suc k)
  let ?n = "length (rows (tx_buffer s))"
  from Suc.prems(3) have idxn: "idx < ?n" by simp
  with Suc.prems(1) have lt: "idx < length (tx_files s)"
    and len: "length (content (tx_files s ! idx)) = S"
    and ps: "pos (tx_files s ! idx) = p"
    by (auto simp: chans_at_def)
  let ?buffer = "take (shape1 (tx_buffer s)) (drop p (content (tx_files s ! idx)))"
  let ?file' = "(tx_files s ! idx)\<lparr>pos := p + c\<rparr>"
  have lb: "length ?buffer = c" using len Suc.prems(2) by simp
  have ff: "fromfile (tx_files s ! idx) (shape1 (tx_buffer s)) = (?buffer, ?file')"
    using lb ps by (simp add: fromfile_def Let_def)
  let ?s2 = "s\<lparr>tx_files := (tx_files s)[idx := ?file'],
               tx_buffer := assign_row_prefix (tx_buffer s) idx ?buffer\<rparr>"
  have ca: "chans_at ?s2 S (idx + 1) p (p + c)"
    using Suc.prems(1) lt
    by (auto simp: chans_at_def assign_row_prefix_def nth_list_update)
  have c2: "c = min (shape1 (tx_buffer ?s2)) (S - p)"
    using Suc.prems(2) by (simp add: assign_row_prefix_def)
  have n2: "(idx + 1) + k = length (rows (tx_buffer ?s2))"
    using Suc.prems(3) by (simp add: assign_row_prefix_def)
  have noassert: "\<not> (idx \<noteq> 0 \<and> blc \<noteq> Some (length ?buffer))"
    using Suc.prems(4) lb by auto
  have "read_chans idx (Suc k) s blc = read_chans (idx + 1) k ?s2 (Some c)"
    using lt ff noassert lb by (auto simp add: Let_def simp del: length_take)
  with Suc.prems(6) have rec: "read_chans (idx + 1) k ?s2 (Some c) = (r, s')" by simp
  have rl: "rows_loaded ?s2 (idx + 1) p c"
    unfolding rows_loaded_def
  proof (intro allI impI)
    fix j assume j: "j < idx + 1"
    show "take c (rows (tx_buffer ?s2) ! j)
        = take (shape1 (tx_buffer ?s2)) (drop p (content (tx_files ?s2 ! j)))"
    proof (cases "j = idx")
      case True
      have "take c (?buffer @ drop (length ?buffer) (rows (tx_buffer s) ! idx)) = ?buffer"
        using lb by (metis append_eq_conv_conj)
      with True show ?thesis using idxn lt
        by (simp add: assign_row_prefix_def del: length_take)
    next
      case False
      with j have "j < idx" by simp
      with Suc.prems(5) False show ?thesis
        by (simp add: rows_loaded_def assign_row_prefix_def)
    qed
  qed
  from Suc.IH [OF ca c2 n2 _ rl rec] show ?case by simp
qed

lemma chunk_loop_data:
  assumes ok: "send_ok send stall" and B: "0 < B"
  shows "chans_at s S 0 p p \<Longrightarrow> p \<le> S \<Longrightarrow> 0 < length (rows (tx_buffer s)) \<Longrightarrow>
         shape1 (tx_buffer s) = B \<Longrightarrow> chunk_loop send s num_tx = Some (r, s') \<Longrightarrow>
         j < length (rows (tx_buffer s)) \<Longrightarrow>
         sent_data j (send_log s')
           = sent_data j (send_log s) @ drop p (content (tx_files s ! j))"
proof (induction "S - p" arbitrary: s p num_tx rule: less_induct)
  case less
  let ?n = "length (rows (tx_buffer s))"
  define c where "c = min (shape1 (tx_buffer s)) (S - p)"
  from less.prems(1) have ca0: "chans_at s S 0 p (p + c)" by (simp add: chans_at_def)
  from read_chans_aligned [OF ca0 c_def, of ?n None] less.prems(3)
  obtain s1 where rc: "read_chans 0 ?n s None = (Inr (Some c), s1)"
    and ca1: "chans_at s1 S ?n p (p + c)"
    by auto
  from read_chans_preserves [OF rc]
  have pres: "send_log s1 = send_log s" "shape1 (tx_buffer s1) = shape1 (tx_buffer s)"
    "length (rows (tx_buffer s1)) = ?n" "map content (tx_files s1) = map content (tx_files s)"
    "length (tx_files s1) = length (tx_files s)"
    by simp_all
  have jf: "j < length (tx_files s)" using less.prems(1,6) by (simp add: chans_at_def)
  from pres(4) jf pres(5) have cj: "content (tx_files s1 ! j) = content (tx_files s ! j)"
    by (metis nth_map)
  have lenj: "length (content (tx_files s ! j)) = S"
    using less.prems(1,6) by (simp add: chans_at_def)
  have "rows_loaded s 0 p c" by (simp add: rows_loaded_def)
  from read_chans_loaded [OF ca0 c_def _ _ this rc]
  have rl: "rows_loaded s1 ?n p c" by simp
  from ca1 pres(3) have al1: "chans_at s1 S 0 (p + c) (p + c)"
    by (metis chans_at_all)
  show ?case
  proof (cases "c = 0")
    case True
    with c_def less.prems(4) B have "S - p = 0" by (simp add: min_def split: if_splits)
    then have "drop p (content (tx_files s ! j)) = []" using lenj by simp
    moreover have "chunk_loop send s num_tx = Some (Inr num_tx, s1)"
      by (subst chunk_loop.simps) (simp add: rc True)
    with less.prems(5) have "s' = s1" by simp
    ultimately show ?thesis using pres(1) by simp
  next
    case False
    then have cpos: "0 < c" by simp
    have cle: "c \<le> shape1 (tx_buffer s1)" by (simp add: pres(2) c_def)
    from send_loop_total [OF ok _ cle, of 0 num_tx] cpos
    obtain s2 where s2: "send_loop send c s1 0 num_tx = Some (s2, num_tx + c)"
      "tx_files s2 = tx_files s1" "tx_buffer s2 = tx_buffer s1"
      by auto
    have j1: "j < length (rows (tx_buffer s1))" using pres(3) less.prems(6) by simp
    from send_loop_data [OF ok _ cle s2(1) j1]
    have d1: "sent_data j (send_log s2)
        = sent_data j (send_log s1) @ take c (rows (tx_buffer s1) ! j)"
      by simp
    from rl less.prems(6) cj pres(2)
    have ld: "take c (rows (tx_buffer s1) ! j)
        = take (shape1 (tx_buffer s)) (drop p (content (tx_files s ! j)))"
      by (simp add: rows_loaded_def)
    from al1 s2(2,3) have al2: "chans_at s2 S 0 (p + c) (p + c)"
      by (simp add: chans_at_def)
    have cS: "c \<le> S - p" by (simp add: c_def)
    have m: "S - (p + c) < S - p" using cpos cS by simp
    have ple: "p + c \<le> S" using cS less.prems(2) by simp
    have n2: "0 < length (rows (tx_buffer s2))" using s2(3) pres(3) less.prems(3) by simp
    have sh2: "shape1 (tx_buffer s2) = B" using s2(3) pres(2) less.prems(4) by simp
    have unf: "chunk_loop send s num_tx = chunk_loop send s2 (num_tx + c)"
      by (subst chunk_loop.simps) (simp add: rc False s2(1))
    with less.prems(5) have rec: "chunk_loop send s2 (num_tx + c) = Some (r, s')" by simp
    have j2: "j < length (rows (tx_buffer s2))" using s2(3) j1 by simp
    from less.hyps [OF m al2 ple n2 sh2 rec j2]
    have "sent_data j (send_log s')
        = sent_data j (send_log s2) @ drop (p + c) (content (tx_files s2 ! j))" .
    also have "content (tx_files s2 ! j) = content (tx_files s ! j)" using s2(2) cj by simp
    finally have "sent_data j (send_log s')
        = sent_data j (send_log s) @ take (shape1 (tx_buffer s)) (drop p (content (tx_files s ! j)))
            @ drop (p + c) (content (tx_files s ! j))"
      using d1 ld pres(1) by simp
    moreover have "take (shape1 (tx_buffer s)) (drop p (content (tx_files s ! j)))
            @ drop (p + c) (content (tx_files s ! j)) = drop p (content (tx_files s ! j))"
    proof -
      let ?xs = "drop p (content (tx_files s ! j))"
      have lx: "length ?xs = S - p" using lenj by simp
      have e1: "drop (p + c) (content (tx_files s ! j)) = drop c ?xs"
        by (simp only: drop_drop add.commute)
      have e2: "take (shape1 (tx_buffer s)) ?xs = take c ?xs"
        using lx by (simp add: c_def min_def)
      show ?thesis by (simp only: e1 e2 append_take_drop_id)
    qed
    ultimately show ?thesis by simp
  qed
qed

text \<open>
  Claim C5.  One iteration, every channel source holding \<open>S\<close> samples, a buffer
  capacity \<open>B > 0\<close> (in particular \<open>B < S\<close>), and a streamer whose \<^verbatim>\<open>send\<close> never
  takes more than it is offered and takes nothing only a bounded number of times
  in a row (\<open>stall\<close> bounds the calls that take nothing): the pump returns, the
  total it returns is \<open>S\<close>, it has made at least \<open>ceil (S / B)\<close> calls of
  \<^verbatim>\<open>send\<close>, and for every channel the samples the calls took, in order, are the
  samples of the channel's source.
\<close>

theorem tx_single_iteration:
  assumes ok: "send_ok send stall"
    and B: "0 < shape1 tx_buffer0"
    and n: "0 < length (rows tx_buffer0)"
    and nf: "length (rows tx_buffer0) \<le> length files"
    and len: "\<forall>j < length (rows tx_buffer0). length (content (files ! j)) = S"
  shows "\<exists>s'. tx_function send st0 tx_buffer0 files 1 = Some (Inr S, s')
            \<and> (S + shape1 tx_buffer0 - 1) div shape1 tx_buffer0 \<le> length (send_log s')
            \<and> (\<forall>j < length (rows tx_buffer0). sent_data j (send_log s') = content (files ! j))"
proof -
  let ?s0 = "\<lparr>tx_streamer = st0, tx_buffer = tx_buffer0, tx_files = files, send_log = []\<rparr>"
  from seek_chans_ok [of 0 "length (rows tx_buffer0)" files] nf
  obtain files' where f': "seek_chans 0 (length (rows tx_buffer0)) files = (None, files')"
      "length files' = length files"
      "\<forall>j < length files. content (files' ! j) = content (files ! j)
           \<and> pos (files' ! j) = (if j < length (rows tx_buffer0) then 0 else pos (files ! j))"
    by auto
  let ?s1 = "?s0\<lparr>tx_files := files'\<rparr>"
  have al: "chans_at ?s1 S 0 0 0"
    using f'(2,3) nf len by (auto simp: chans_at_def)
  from chunk_loop_total [OF ok B al, of 0] n
  obtain s' where s': "chunk_loop send ?s1 0 = Some (Inr S, s')"
      "(S + shape1 tx_buffer0 - 1) div shape1 tx_buffer0 \<le> length (send_log s')"
    by auto
  have data: "\<forall>j < length (rows tx_buffer0). sent_data j (send_log s') = content (files ! j)"
  proof (intro allI impI)
    fix j assume j: "j < length (rows tx_buffer0)"
    from chunk_loop_data [OF ok B al _ _ _ s'(1), of j] n j
    have "sent_data j (send_log s') = content (files' ! j)" by (simp add: sent_data_def)
    with f'(3) j nf show "sent_data j (send_log s') = content (files ! j)" by simp
  qed
  have "tx_function send st0 tx_buffer0 files 1 = tx_loop send 1 s' S 1"
    unfolding tx_function_def
    by (subst tx_loop.simps) (simp add: f'(1) s'(1) [simplified])
  also have "\<dots> = Some (Inr S, s')"
    by (subst tx_loop.simps) simp
  finally show ?thesis using s'(2) data by blast
qed

theorem tx_single_iteration_witness:
  "send_ok send3 (\<lambda>calls. calls mod 2) \<and>
   (\<exists>s'. tx_function send3 0 \<lparr>shape1 = 4, rows = [[0, 0, 0, 0]]\<rparr>
            [open_file ''in'' [1, 2, 3, 4, 5, 6, 7, 8, 9, 10 :: nat]] 1 = Some (Inr 10, s')
        \<and> 3 \<le> length (send_log s')
        \<and> sent_data 0 (send_log s') = [1, 2, 3, 4, 5, 6, 7, 8, 9, 10])"
proof -
  have ok: "send_ok send3 (\<lambda>calls. calls mod 2)"
    by (auto simp: send_ok_def send3_def mod_Suc elim!: oddE)
  from tx_single_iteration [OF ok, of "\<lparr>shape1 = 4, rows = [[0, 0, 0, 0]]\<rparr>"
      "[open_file ''in'' [1, 2, 3, 4, 5, 6, 7, 8, 9, 10 :: nat]]" 10 0] ok
  show ?thesis by (simp add: open_file_def)
qed

section \<open>Channel sources of unequal length\<close>

text \<open>
  A full chunk read from every channel, and the chunk loop up to the chunk whose
  reads are unequal: the chunks before it are sent whole.
\<close>

lemma read_chans_full:
  "chans_from s m idx p (p + B) \<Longrightarrow> shape1 (tx_buffer s) = B \<Longrightarrow> p + B \<le> m \<Longrightarrow>
   idx + k = length (rows (tx_buffer s)) \<Longrightarrow> (0 < idx \<longrightarrow> blc = Some B) \<Longrightarrow>
   rows_loaded s idx p B \<Longrightarrow>
   \<exists>s'. read_chans idx k s blc = (Inr (if k = 0 then blc else Some B), s')
      \<and> chans_from s' m (idx + k) p (p + B) \<and> rows_loaded s' (idx + k) p B"
proof (induction k arbitrary: idx s blc)
  case 0
  then show ?case by simp
next
  case (Suc k)
  let ?n = "length (rows (tx_buffer s))"
  from Suc.prems(4) have idxn: "idx < ?n" by simp
  with Suc.prems(1) have lt: "idx < length (tx_files s)"
    and len: "m \<le> length (content (tx_files s ! idx))"
    and ps: "pos (tx_files s ! idx) = p"
    by (auto simp: chans_from_def)
  let ?buffer = "take B (drop p (content (tx_files s ! idx)))"
  let ?file' = "(tx_files s ! idx)\<lparr>pos := p + B\<rparr>"
  have lb: "length ?buffer = B" using len Suc.prems(3) by simp
  have ff: "fromfile (tx_files s ! idx) (shape1 (tx_buffer s)) = (?buffer, ?file')"
    using lb ps Suc.prems(2) by (simp add: fromfile_def Let_def)
  let ?s2 = "s\<lparr>tx_files := (tx_files s)[idx := ?file'],
               tx_buffer := assign_row_prefix (tx_buffer s) idx ?buffer\<rparr>"
  have ca: "chans_from ?s2 m (idx + 1) p (p + B)"
    using Suc.prems(1) lt
    by (auto simp: chans_from_def assign_row_prefix_def nth_list_update)
  have sh2: "shape1 (tx_buffer ?s2) = B"
    using Suc.prems(2) by (simp add: assign_row_prefix_def)
  have n2: "(idx + 1) + k = length (rows (tx_buffer ?s2))"
    using Suc.prems(4) by (simp add: assign_row_prefix_def)
  have rl: "rows_loaded ?s2 (idx + 1) p B"
    unfolding rows_loaded_def
  proof (intro allI impI)
    fix j assume j: "j < idx + 1"
    show "take B (rows (tx_buffer ?s2) ! j)
        = take (shape1 (tx_buffer ?s2)) (drop p (content (tx_files ?s2 ! j)))"
    proof (cases "j = idx")
      case True
      have "take B (?buffer @ drop (length ?buffer) (rows (tx_buffer s) ! idx)) = ?buffer"
        using lb by (metis append_eq_conv_conj)
      with True show ?thesis using idxn lt Suc.prems(2)
        by (simp add: assign_row_prefix_def del: length_take)
    next
      case False
      with j have "j < idx" by simp
      with Suc.prems(6) False show ?thesis
        by (simp add: rows_loaded_def assign_row_prefix_def)
    qed
  qed
  from Suc.IH [OF ca sh2 Suc.prems(3) n2 _ rl, of "Some B"]
  obtain s' where s': "read_chans (idx + 1) k ?s2 (Some B) = (Inr (Some B), s')"
      "chans_from s' m (idx + 1 + k) p (p + B)" "rows_loaded s' (idx + 1 + k) p B"
    by (auto split: if_splits)
  have noassert: "\<not> (idx \<noteq> 0 \<and> blc \<noteq> Some (length ?buffer))"
    using Suc.prems(5) lb by auto
  have "read_chans idx (Suc k) s blc = read_chans (idx + 1) k ?s2 (Some B)"
    using lt ff noassert lb by (auto simp add: Let_def simp del: length_take)
  with s' show ?case by (intro exI [of _ s']) simp
qed

lemma chunk_loop_reaches_mismatch:
  assumes ok: "send_ok send stall" and B: "0 < B"
  shows "chans_from s (p + r * B) 0 p p \<Longrightarrow> shape1 (tx_buffer s) = B \<Longrightarrow>
         2 \<le> length (rows (tx_buffer s)) \<Longrightarrow>
         \<exists>j < length (rows (tx_buffer s)).
            min B (length (content (tx_files s ! j)) - (p + r * B))
              \<noteq> min B (length (content (tx_files s ! 0)) - (p + r * B)) \<Longrightarrow>
         \<exists>s1. chunk_loop send s num_tx = Some (Inl AssertionError, s1)
            \<and> (\<forall>j < length (rows (tx_buffer s)).
                  sent_data j (send_log s1)
                    = sent_data j (send_log s) @ take (r * B) (drop p (content (tx_files s ! j))))"
proof (induction r arbitrary: s p num_tx)
  case 0
  let ?n = "length (rows (tx_buffer s))"
  from "0.prems"(1) have nf: "?n \<le> length (tx_files s)"
    and ps: "\<forall>j < ?n. pos (tx_files s ! j) = p"
    by (simp_all add: chans_from_def)
  from "0.prems"(3) have n0: "0 < ?n" by linarith
  have cl: "chunk_len s j = min B (length (content (tx_files s ! j)) - p)" if "j < ?n" for j
    using that ps "0.prems"(2) by (simp add: chunk_len_def fromfile_def Let_def min.commute)
  from "0.prems"(4) obtain j where j: "j < ?n"
    "min B (length (content (tx_files s ! j)) - p) \<noteq> min B (length (content (tx_files s ! 0)) - p)"
    by auto
  with cl [OF j(1)] cl [OF n0] have "chunk_len s j \<noteq> chunk_len s 0" by simp
  with j(1) have ex: "\<exists>j < ?n. chunk_len s j \<noteq> chunk_len s 0" by blast
  from chunk_loop_mismatch [OF "0.prems"(3) nf ex, of send num_tx]
  obtain s1 where "chunk_loop send s num_tx = Some (Inl AssertionError, s1)"
    "send_log s1 = send_log s" by blast
  then show ?case by (intro exI [of _ s1]) simp
next
  case (Suc r)
  let ?n = "length (rows (tx_buffer s))"
  let ?m = "p + Suc r * B"
  from Suc.prems(3) have n0: "0 < ?n" by linarith
  from Suc.prems(1) have ca0: "chans_from s ?m 0 p (p + B)" by (simp add: chans_from_def)
  have pm: "p + B \<le> ?m" by simp
  have rl0: "rows_loaded s 0 p B" by (simp add: rows_loaded_def)
  from read_chans_full [OF ca0 Suc.prems(2) pm, of ?n None] rl0 n0
  obtain s1 where rc: "read_chans 0 ?n s None = (Inr (Some B), s1)"
    and ca1: "chans_from s1 ?m ?n p (p + B)" and rl: "rows_loaded s1 ?n p B"
    by auto
  from read_chans_preserves [OF rc]
  have pres: "send_log s1 = send_log s" "shape1 (tx_buffer s1) = shape1 (tx_buffer s)"
    "length (rows (tx_buffer s1)) = ?n" "map content (tx_files s1) = map content (tx_files s)"
    "length (tx_files s1) = length (tx_files s)"
    by simp_all
  from Suc.prems(1) have nf: "?n \<le> length (tx_files s)" by (simp add: chans_from_def)
  have cj: "content (tx_files s1 ! j) = content (tx_files s ! j)" if "j < ?n" for j
    using pres(4,5) nf that by (metis nth_map less_le_trans)
  have cle: "B \<le> shape1 (tx_buffer s1)" by (simp add: pres(2) Suc.prems(2))
  from send_loop_total [OF ok _ cle, of 0 num_tx] B
  obtain s2 where s2: "send_loop send B s1 0 num_tx = Some (s2, num_tx + B)"
    "tx_files s2 = tx_files s1" "tx_buffer s2 = tx_buffer s1"
    by auto
  have ca2: "chans_from s2 (p + B + r * B) 0 (p + B) (p + B)"
    using ca1 pres(3) s2(2,3) by (simp add: chans_from_def add.assoc)
  have sh2: "shape1 (tx_buffer s2) = B" using s2(3) pres(2) Suc.prems(2) by simp
  have n2: "2 \<le> length (rows (tx_buffer s2))" using s2(3) pres(3) Suc.prems(3) by simp
  from Suc.prems(4) obtain j where j: "j < ?n"
    "min B (length (content (tx_files s ! j)) - ?m) \<noteq> min B (length (content (tx_files s ! 0)) - ?m)"
    by auto
  have mm: "\<exists>j < length (rows (tx_buffer s2)).
            min B (length (content (tx_files s2 ! j)) - (p + B + r * B))
              \<noteq> min B (length (content (tx_files s2 ! 0)) - (p + B + r * B))"
    using j cj [OF j(1)] cj [OF n0] s2(2,3) pres(3)
    by (intro exI [of _ j]) (simp add: add.assoc)
  from Suc.IH [OF ca2 sh2 n2 mm, of "num_tx + B"]
  obtain s' where s': "chunk_loop send s2 (num_tx + B) = Some (Inl AssertionError, s')"
    "\<forall>j < length (rows (tx_buffer s2)).
        sent_data j (send_log s')
          = sent_data j (send_log s2) @ take (r * B) (drop (p + B) (content (tx_files s2 ! j)))"
    by blast
  have unf: "chunk_loop send s num_tx = chunk_loop send s2 (num_tx + B)"
    using B by (subst chunk_loop.simps) (simp add: rc s2(1))
  have "sent_data j (send_log s')
          = sent_data j (send_log s) @ take (Suc r * B) (drop p (content (tx_files s ! j)))"
    if jn: "j < ?n" for j
  proof -
    let ?c = "content (tx_files s ! j)"
    have j1: "j < length (rows (tx_buffer s1))" using pres(3) jn by simp
    from send_loop_data [OF ok _ cle s2(1) j1]
    have "sent_data j (send_log s2) = sent_data j (send_log s1) @ take B (rows (tx_buffer s1) ! j)"
      by simp
    also have "take B (rows (tx_buffer s1) ! j) = take B (drop p ?c)"
      using rl jn cj [OF jn] pres(2) Suc.prems(2) by (simp add: rows_loaded_def)
    finally have d1: "sent_data j (send_log s2) = sent_data j (send_log s) @ take B (drop p ?c)"
      using pres(1) by simp
    from s'(2) jn s2(2,3) pres(3) cj [OF jn]
    have "sent_data j (send_log s')
        = sent_data j (send_log s2) @ take (r * B) (drop (p + B) ?c)"
      by simp
    also have "drop (p + B) ?c = drop B (drop p ?c)" by (simp add: add.commute)
    finally have "sent_data j (send_log s')
        = sent_data j (send_log s) @ (take B (drop p ?c) @ take (r * B) (drop B (drop p ?c)))"
      using d1 by simp
    also have "take B (drop p ?c) @ take (r * B) (drop B (drop p ?c))
        = take (B + r * B) (drop p ?c)"
      by (simp only: take_add)
    finally show ?thesis by simp
  qed
  with unf s'(1) show ?case by (intro exI [of _ s']) simp
qed

lemma tx_function_first_chunk_mismatch:
  assumes n2: "2 \<le> length (rows tx_buffer0)"
    and nf: "length (rows tx_buffer0) \<le> length files"
    and it: "0 < iterations"
    and mis: "\<exists>j < length (rows tx_buffer0).
        read_size (shape1 tx_buffer0) (files ! j) 0 \<noteq> read_size (shape1 tx_buffer0) (files ! 0) 0"
  shows "\<exists>s1. tx_function send st0 tx_buffer0 files iterations = Some (Inl AssertionError, s1)
            \<and> send_log s1 = [] \<and> tx_streamer s1 = st0"
proof -
  let ?n = "length (rows tx_buffer0)"
  let ?B = "shape1 tx_buffer0"
  let ?s0 = "\<lparr>tx_streamer = st0, tx_buffer = tx_buffer0, tx_files = files, send_log = []\<rparr>"
  from seek_chans_ok [of 0 ?n files] nf
  obtain files' where f': "seek_chans 0 ?n files = (None, files')"
      "length files' = length files"
      "\<forall>j < length files. content (files' ! j) = content (files ! j)
           \<and> pos (files' ! j) = (if j < ?n then 0 else pos (files ! j))"
    by auto
  let ?s1 = "?s0\<lparr>tx_files := files'\<rparr>"
  from n2 have n0: "0 < ?n" by linarith
  have cl: "chunk_len ?s1 j = read_size ?B (files ! j) 0" if "j < ?n" for j
    using that f'(3) nf
    by (simp add: chunk_len_def read_size_def fromfile_def Let_def min.commute)
  from mis obtain j where j: "j < ?n" "read_size ?B (files ! j) 0 \<noteq> read_size ?B (files ! 0) 0"
    by blast
  with cl [OF j(1)] cl [OF n0] have "chunk_len ?s1 j \<noteq> chunk_len ?s1 0" by simp
  with j(1) have ex: "\<exists>j < length (rows (tx_buffer ?s1)). chunk_len ?s1 j \<noteq> chunk_len ?s1 0"
    by auto
  have a: "2 \<le> length (rows (tx_buffer ?s1))" using n2 by simp
  have b: "length (rows (tx_buffer ?s1)) \<le> length (tx_files ?s1)" using nf f'(2) by simp
  from chunk_loop_mismatch [OF a b ex, of send 0]
  obtain s1 where s1: "chunk_loop send ?s1 0 = Some (Inl AssertionError, s1)"
    "send_log s1 = []" "tx_streamer s1 = st0"
    by auto
  have "tx_function send st0 tx_buffer0 files iterations = Some (Inl AssertionError, s1)"
    unfolding tx_function_def
    by (rule tx_loop_error [OF it _ s1(1)]) (simp add: f'(1))
  with s1(2,3) show ?thesis by blast
qed

lemma tx_function_chunk_mismatch:
  assumes ok: "send_ok send stall"
    and B: "0 < shape1 tx_buffer0"
    and n2: "2 \<le> length (rows tx_buffer0)"
    and nf: "length (rows tx_buffer0) \<le> length files"
    and it: "0 < iterations"
    and full: "\<forall>j < length (rows tx_buffer0). t * shape1 tx_buffer0 \<le> length (content (files ! j))"
    and mis: "\<exists>j < length (rows tx_buffer0).
        read_size (shape1 tx_buffer0) (files ! j) t \<noteq> read_size (shape1 tx_buffer0) (files ! 0) t"
  shows "\<exists>s1. tx_function send st0 tx_buffer0 files iterations = Some (Inl AssertionError, s1)
            \<and> (\<forall>j < length (rows tx_buffer0).
                  sent_data j (send_log s1) = take (t * shape1 tx_buffer0) (content (files ! j)))"
proof -
  let ?n = "length (rows tx_buffer0)"
  let ?B = "shape1 tx_buffer0"
  let ?s0 = "\<lparr>tx_streamer = st0, tx_buffer = tx_buffer0, tx_files = files, send_log = []\<rparr>"
  from seek_chans_ok [of 0 ?n files] nf
  obtain files' where f': "seek_chans 0 ?n files = (None, files')"
      "length files' = length files"
      "\<forall>j < length files. content (files' ! j) = content (files ! j)
           \<and> pos (files' ! j) = (if j < ?n then 0 else pos (files ! j))"
    by auto
  let ?s1 = "?s0\<lparr>tx_files := files'\<rparr>"
  from n2 have n0: "0 < ?n" by linarith
  have cj: "content (files' ! j) = content (files ! j)" if "j < ?n" for j
    using that f'(3) nf by simp
  have ca: "chans_from ?s1 (0 + t * ?B) 0 0 0"
    using f'(2,3) nf full by (auto simp: chans_from_def)
  have sh: "shape1 (tx_buffer ?s1) = ?B" by simp
  have a: "2 \<le> length (rows (tx_buffer ?s1))" using n2 by simp
  from mis obtain j where j: "j < ?n" "read_size ?B (files ! j) t \<noteq> read_size ?B (files ! 0) t"
    by blast
  have mm: "\<exists>j < length (rows (tx_buffer ?s1)).
            min ?B (length (content (tx_files ?s1 ! j)) - (0 + t * ?B))
              \<noteq> min ?B (length (content (tx_files ?s1 ! 0)) - (0 + t * ?B))"
    using j cj [OF j(1)] cj [OF n0] by (intro exI [of _ j]) (simp add: read_size_def)
  from chunk_loop_reaches_mismatch [OF ok B ca sh a mm, of 0]
  obtain s1 where s1: "chunk_loop send ?s1 0 = Some (Inl AssertionError, s1)"
    "\<forall>j < ?n. sent_data j (send_log s1) = take (t * ?B) (content (files' ! j))"
    by (auto simp: sent_data_def)
  have "tx_function send st0 tx_buffer0 files iterations = Some (Inl AssertionError, s1)"
    unfolding tx_function_def
    by (rule tx_loop_error [OF it _ s1(1)]) (simp add: f'(1))
  moreover have "\<forall>j < ?n. sent_data j (send_log s1) = take (t * ?B) (content (files ! j))"
    using s1(2) cj by simp
  ultimately show ?thesis by blast
qed

text \<open>
  Claim C6.  With two or more channels, if the reads of one chunk yield unequal
  sample counts, the pump fails with \<open>AssertionError\<close> (the specification's
  \<open>ChannelLengthMismatch\<close>) before any \<^verbatim>\<open>send\<close> of that chunk:
  \<^item> in the chunk loop, at any state: the result is the error, and the log of
    calls and the streamer are as they were when the chunk began;
  \<^item> for \<^verbatim>\<open>tx_function\<close> with at least one iteration, the unequal reads being
    those of the first chunk: the result of the pump is the error, no call of
    \<^verbatim>\<open>send\<close> has been made and the streamer is untouched;
  \<^item> for \<^verbatim>\<open>tx_function\<close> with at least one iteration and a streamer as in Claim
    C5, the unequal reads being those of chunk \<open>t\<close> and every channel source
    holding the \<open>t\<close> full chunks before it: the result of the pump is the error,
    and the samples that the calls took are, for every channel, exactly those
    \<open>t\<close> chunks, nothing of chunk \<open>t\<close>.
\<close>

theorem channel_length_mismatch:
  "(2 \<le> length (rows (tx_buffer s)) \<and> length (rows (tx_buffer s)) \<le> length (tx_files s)
      \<and> (\<exists>j < length (rows (tx_buffer s)). chunk_len s j \<noteq> chunk_len s 0) \<longrightarrow>
      (\<exists>s1. chunk_loop send2 s num_tx = Some (Inl AssertionError, s1)
          \<and> send_log s1 = send_log s \<and> tx_streamer s1 = tx_streamer s))
   \<and> (2 \<le> length (rows tx_buffer1) \<and> length (rows tx_buffer1) \<le> length files1
      \<and> 0 < iterations1
      \<and> (\<exists>j < length (rows tx_buffer1).
            read_size (shape1 tx_buffer1) (files1 ! j) 0
              \<noteq> read_size (shape1 tx_buffer1) (files1 ! 0) 0) \<longrightarrow>
      (\<exists>s1. tx_function send1 st1 tx_buffer1 files1 iterations1 = Some (Inl AssertionError, s1)
          \<and> send_log s1 = [] \<and> tx_streamer s1 = st1))
   \<and> (send_ok send stall \<and> 0 < shape1 tx_buffer0 \<and> 2 \<le> length (rows tx_buffer0)
      \<and> length (rows tx_buffer0) \<le> length files \<and> 0 < iterations
      \<and> (\<forall>j < length (rows tx_buffer0). t * shape1 tx_buffer0 \<le> length (content (files ! j)))
      \<and> (\<exists>j < length (rows tx_buffer0).
            read_size (shape1 tx_buffer0) (files ! j) t
              \<noteq> read_size (shape1 tx_buffer0) (files ! 0) t) \<longrightarrow>
      (\<exists>s1. tx_function send st0 tx_buffer0 files iterations = Some (Inl AssertionError, s1)
          \<and> (\<forall>j < length (rows tx_buffer0).
                sent_data j (send_log s1) = take (t * shape1 tx_buffer0) (content (files ! j)))))"
  using chunk_loop_mismatch [of s send2 num_tx]
    tx_function_first_chunk_mismatch [of tx_buffer1 files1 iterations1 send1 st1]
    tx_function_chunk_mismatch [of send stall tx_buffer0 files iterations t st0]
  by blast

theorem channel_length_mismatch_witness:
  "(\<exists>s1. chunk_loop send3
           \<lparr>tx_streamer = 0, tx_buffer = \<lparr>shape1 = 4, rows = [[0, 0, 0, 0], [0, 0, 0, 0]]\<rparr>,
            tx_files = [open_file ''a'' [1, 2, 3 :: nat], open_file ''b'' [1, 2, 3, 4, 5]],
            send_log = []\<rparr> 0
         = Some (Inl AssertionError, s1)
       \<and> send_log s1 = [] \<and> tx_streamer s1 = 0)
   \<and> (\<exists>s1. tx_function send3 0 \<lparr>shape1 = 4, rows = [[0, 0, 0, 0], [0, 0, 0, 0]]\<rparr>
           [open_file ''a'' [1, 2, 3 :: nat], open_file ''b'' [1, 2, 3, 4, 5]] 1
         = Some (Inl AssertionError, s1)
       \<and> send_log s1 = [] \<and> tx_streamer s1 = 0)
   \<and> send_ok send3 (\<lambda>calls. calls mod 2)
   \<and> (\<exists>s1. tx_function send3 0 \<lparr>shape1 = 4, rows = [[0, 0, 0, 0], [0, 0, 0, 0]]\<rparr>
           [open_file ''a'' [1, 2, 3, 4, 5, 6, 7, 8, 9, 10 :: nat],
            open_file ''b'' [1, 2, 3, 4, 5, 6, 7, 8, 9]] 1
         = Some (Inl AssertionError, s1)
       \<and> sent_data 0 (send_log s1) = [1, 2, 3, 4, 5, 6, 7, 8]
       \<and> sent_data 1 (send_log s1) = [1, 2, 3, 4, 5, 6, 7, 8])"
proof -
  let ?buf = "\<lparr>shape1 = 4, rows = [[0, 0, 0, 0], [0, 0, 0, 0 :: nat]]\<rparr>"
  let ?f1 = "[open_file ''a'' [1, 2, 3 :: nat], open_file ''b'' [1, 2, 3, 4, 5]]"
  let ?f2 = "[open_file ''a'' [1, 2, 3, 4, 5, 6, 7, 8, 9, 10 :: nat],
              open_file ''b'' [1, 2, 3, 4, 5, 6, 7, 8, 9]]"
  let ?s = "\<lparr>tx_streamer = 0 :: nat, tx_buffer = ?buf, tx_files = ?f1, send_log = []\<rparr>"
  have ok: "send_ok send3 (\<lambda>calls. calls mod 2)"
    by (auto simp: send_ok_def send3_def mod_Suc elim!: oddE)
  have "1 < length (rows (tx_buffer ?s)) \<and> chunk_len ?s 1 \<noteq> chunk_len ?s 0"
    by (simp add: chunk_len_def fromfile_def open_file_def Let_def)
  then have h1: "\<exists>j < length (rows (tx_buffer ?s)). chunk_len ?s j \<noteq> chunk_len ?s 0"
    by blast
  have "1 < length (rows ?buf)
      \<and> read_size (shape1 ?buf) (?f1 ! 1) 0 \<noteq> read_size (shape1 ?buf) (?f1 ! 0) 0"
    by (simp add: read_size_def open_file_def)
  then have h2: "\<exists>j < length (rows ?buf).
      read_size (shape1 ?buf) (?f1 ! j) 0 \<noteq> read_size (shape1 ?buf) (?f1 ! 0) 0"
    by blast
  have h3: "\<forall>j < length (rows ?buf). 2 * shape1 ?buf \<le> length (content (?f2 ! j))"
    by (simp add: open_file_def less_Suc_eq)
  have "1 < length (rows ?buf)
      \<and> read_size (shape1 ?buf) (?f2 ! 1) 2 \<noteq> read_size (shape1 ?buf) (?f2 ! 0) 2"
    by (simp add: read_size_def open_file_def)
  then have h4: "\<exists>j < length (rows ?buf).
      read_size (shape1 ?buf) (?f2 ! j) 2 \<noteq> read_size (shape1 ?buf) (?f2 ! 0) 2"
    by blast
  note inst = channel_length_mismatch [of ?s send3 0 ?buf ?f1 1 send3 0
      send3 "\<lambda>calls. calls mod 2" ?buf ?f2 1 2 0]
  from inst h1
  have a: "\<exists>s1. chunk_loop send3 ?s 0 = Some (Inl AssertionError, s1)
      \<and> send_log s1 = [] \<and> tx_streamer s1 = 0"
    by simp
  from inst h2
  have b: "\<exists>s1. tx_function send3 0 ?buf ?f1 1 = Some (Inl AssertionError, s1)
      \<and> send_log s1 = [] \<and> tx_streamer s1 = 0"
    by simp
  from inst ok h3 h4
  obtain s1 where c: "tx_function send3 0 ?buf ?f2 1 = Some (Inl AssertionError, s1)"
    "\<forall>j < length (rows ?buf).
        sent_data j (send_log s1) = take (2 * shape1 ?buf) (content (?f2 ! j))"
    by auto
  from c(2) have "sent_data 0 (send_log s1) = [1, 2, 3, 4, 5, 6, 7, 8]"
    "sent_data 1 (send_log s1) = [1, 2, 3, 4, 5, 6, 7, 8]"
    by (simp_all add: open_file_def)
  with c(1) have "\<exists>s1. tx_function send3 0 ?buf ?f2 1 = Some (Inl AssertionError, s1)
      \<and> sent_data 0 (send_log s1) = [1, 2, 3, 4, 5, 6, 7, 8]
      \<and> sent_data 1 (send_log s1) = [1, 2, 3, 4, 5, 6, 7, 8]"
    by blast
  with a b ok show ?thesis by simp
qed

end
